theory Spec2Isabelle
  imports Main "HOL-Library.Word" "HOL-Library.Multiset"
begin

section \<open>FixedLengthString (fixedstring.h)\<close>

text \<open>
  A \<^verbatim>\<open>char\<close> is one byte. The array \<^verbatim>\<open>char m_data[maxSize]\<close> is a list of cells;
  the cursor \<^verbatim>\<open>char* m_end\<close> is kept as its signed distance from \<^verbatim>\<open>m_data\<close>, so that a
  cursor before or behind the array can be written down, as the corruption checks of the
  source expect. The order on \<^verbatim>\<open>char\<close> is the signed one of the usual ABIs.
\<close>

type_synonym cchar = "8 word"

definition char_less :: "cchar \<Rightarrow> cchar \<Rightarrow> bool" where
  "char_less a b = (sint a < sint b)"

text \<open>
  Three ways out of the normal flow: \<^verbatim>\<open>quackle_fls_abort\<close>, a failed \<^verbatim>\<open>assert\<close>
  (assertions enabled), and a memory access outside \<^verbatim>\<open>m_data\<close>, which C++ leaves
  undefined and which the model reports instead of hiding.
\<close>

datatype fatal = Abort | AssertFail | OutOfBounds

definition maxSize :: nat where
  "maxSize = 40"

definition QUACKLE_FIXEDSTRING_CAPACITY :: int where
  "QUACKLE_FIXEDSTRING_CAPACITY = 64"

record FixedLengthString =
  m_data :: "cchar list"
  m_end :: int

text \<open>Conversions between \<^verbatim>\<open>ptrdiff_t\<close>/\<^verbatim>\<open>int\<close> and the 32-bit \<^verbatim>\<open>size_type\<close>.\<close>

definition to_size_type :: "int \<Rightarrow> nat" where
  "to_size_type d = nat (d mod 2 ^ 32)"

definition to_int :: "nat \<Rightarrow> int" where
  "to_int n = (if n mod 2 ^ 32 < 2 ^ 31 then int (n mod 2 ^ 32) else int (n mod 2 ^ 32) - 2 ^ 32)"

subsection \<open>Memory primitives on the backing array\<close>

definition memset_zero :: "cchar list" where
  "memset_zero = replicate maxSize 0"

definition memcpy :: "cchar list \<Rightarrow> cchar list \<Rightarrow> nat \<Rightarrow> fatal + cchar list" where
  "memcpy dst src n =
     (if n \<le> length src \<and> n \<le> length dst then Inr (take n src @ drop n dst)
      else Inl OutOfBounds)"

definition store :: "cchar list \<Rightarrow> int \<Rightarrow> cchar \<Rightarrow> fatal + cchar list" where
  "store d i c =
     (if 0 \<le> i \<and> i < int (length d) then Inr (d[nat i := c]) else Inl OutOfBounds)"

text \<open>
  \<^verbatim>\<open>memmove(i, i + 1, cnt)\<close> inside one array: \<open>cnt\<close> cells starting at \<open>i + 1\<close> are
  moved to \<open>i\<close>. A negative count becomes a huge \<^verbatim>\<open>size_t\<close>; a count of zero touches
  no cell.
\<close>

definition memmove_left :: "cchar list \<Rightarrow> int \<Rightarrow> int \<Rightarrow> fatal + cchar list" where
  "memmove_left d i cnt =
     (if cnt = 0 then Inr d
      else if cnt < 0 \<or> i < 0 \<or> i + 1 + cnt > int (length d) then Inl OutOfBounds
      else Inr (take (nat i) d @ take (nat cnt) (drop (nat i + 1) d) @ drop (nat (i + cnt)) d))"

subsection \<open>Accessors\<close>

definition length_fls :: "FixedLengthString \<Rightarrow> fatal + nat" where
  "length_fls s =
     (let len = to_size_type (m_end s) in
      if len < 0 \<or> len > maxSize \<or> m_end s < 0 \<or> m_end s > int maxSize
      then Inl Abort else Inr len)"

definition size_fls :: "FixedLengthString \<Rightarrow> fatal + nat" where
  "size_fls s = length_fls s"

definition empty_fls :: "FixedLengthString \<Rightarrow> fatal + bool" where
  "empty_fls s = (case length_fls s of Inl e \<Rightarrow> Inl e | Inr n \<Rightarrow> Inr (n = 0))"

definition capacity :: "FixedLengthString \<Rightarrow> int" where
  "capacity s = int maxSize"

definition begin_fls :: "FixedLengthString \<Rightarrow> int" where
  "begin_fls s = 0"

text \<open>
  \<^verbatim>\<open>end() const\<close> checks the cursor; the non-const overload returns it as it is.
  The test \<^verbatim>\<open>m_end == nullptr\<close> of the checks has no counterpart here: a cursor
  is a distance from \<^verbatim>\<open>m_data\<close>, and the null pointer is no such distance inside
  \<open>[0, maxSize]\<close>.
\<close>

definition end_const :: "FixedLengthString \<Rightarrow> fatal + int" where
  "end_const s =
     (if m_end s < 0 \<or> m_end s > int maxSize then Inl Abort else Inr (m_end s))"

definition end_fls :: "FixedLengthString \<Rightarrow> fatal + int" where
  "end_fls s = Inr (m_end s)"

subsection \<open>Constructors and assignment\<close>

definition ctor_default :: "FixedLengthString" where
  "ctor_default = \<lparr>m_data = memset_zero, m_end = 0\<rparr>"

text \<open>
  \<^verbatim>\<open>FixedLengthString(const char* s, size_type n)\<close>: the list \<open>s\<close> holds the cells that
  may be read through the pointer.
\<close>

definition ctor_sn :: "cchar list \<Rightarrow> nat \<Rightarrow> fatal + FixedLengthString" where
  "ctor_sn s n =
     (if \<not> n < maxSize then Inl AssertFail
      else case memcpy memset_zero s n of Inl e \<Rightarrow> Inl e | Inr d \<Rightarrow>
        (case store d (int n) 0 of Inl e \<Rightarrow> Inl e | Inr d' \<Rightarrow>
           Inr \<lparr>m_data = d', m_end = int n\<rparr>))"

definition copy_ctor :: "FixedLengthString \<Rightarrow> fatal + FixedLengthString" where
  "copy_ctor s =
     (case size_fls s of Inl e \<Rightarrow> Inl e | Inr sz \<Rightarrow>
        (let cap = int maxSize; len = to_int sz in
         if len < 0 \<or> len > cap \<or> len > QUACKLE_FIXEDSTRING_CAPACITY then Inl Abort
         else case (if len > 0 then memcpy memset_zero (m_data s) (nat len) else Inr memset_zero) of
           Inl e \<Rightarrow> Inl e
         | Inr d \<Rightarrow>
             (case store d len 0 of Inl e \<Rightarrow> Inl e | Inr d' \<Rightarrow>
                Inr \<lparr>m_data = d', m_end = len\<rparr>)))"

text \<open>
  The move constructor only reads its argument. It returns the argument as the call
  leaves it, paired with the new object.
\<close>

definition move_ctor :: "FixedLengthString \<Rightarrow> fatal + (FixedLengthString \<times> FixedLengthString)" where
  "move_ctor s =
     (case size_fls s of Inl e \<Rightarrow> Inl e | Inr n \<Rightarrow>
        (let sz = to_int n in
         case memcpy memset_zero (m_data s) (nat sz) of Inl e \<Rightarrow> Inl e | Inr d \<Rightarrow>
           (case store d sz 0 of Inl e \<Rightarrow> Inl e | Inr d' \<Rightarrow>
              Inr (s, \<lparr>m_data = d', m_end = sz\<rparr>))))"

text \<open>
  \<^verbatim>\<open>operator=\<close> for two distinct objects (\<^verbatim>\<open>this != &s\<close>); self-assignment returns the
  object untouched and is \<open>assign_self\<close>.
\<close>

definition assign :: "FixedLengthString \<Rightarrow> FixedLengthString \<Rightarrow> fatal + FixedLengthString" where
  "assign this s =
     (case size_fls s of Inl e \<Rightarrow> Inl e | Inr sz \<Rightarrow>
        (let cap = int maxSize; len = to_int sz in
         if len < 0 \<or> len > cap \<or> len > QUACKLE_FIXEDSTRING_CAPACITY then Inl Abort
         else case (if len > 0 then memcpy memset_zero (m_data s) (nat len) else Inr memset_zero) of
           Inl e \<Rightarrow> Inl e
         | Inr d \<Rightarrow>
             (case store d len 0 of Inl e \<Rightarrow> Inl e | Inr d' \<Rightarrow>
                (if len < 0 \<or> len > int maxSize then Inl Abort
                 else Inr \<lparr>m_data = d', m_end = len\<rparr>))))"

definition assign_self :: "FixedLengthString \<Rightarrow> FixedLengthString" where
  "assign_self this = this"

subsection \<open>Mutators\<close>

definition clear :: "FixedLengthString \<Rightarrow> FixedLengthString" where
  "clear s = s\<lparr>m_end := 0\<rparr>"

text \<open>\<^verbatim>\<open>erase(i)\<close>: the iterator is the distance of \<open>i\<close> from \<^verbatim>\<open>m_data\<close>.\<close>

definition erase :: "FixedLengthString \<Rightarrow> int \<Rightarrow> fatal + FixedLengthString" where
  "erase s i =
     (case memmove_left (m_data s) i (m_end s - i) of Inl e \<Rightarrow> Inl e | Inr d \<Rightarrow>
        Inr \<lparr>m_data = d, m_end = m_end s - 1\<rparr>)"

text \<open>\<^verbatim>\<open>operator+=(char)\<close>.\<close>

definition append_char :: "FixedLengthString \<Rightarrow> cchar \<Rightarrow> fatal + FixedLengthString" where
  "append_char s c =
     (case size_fls s of Inl e \<Rightarrow> Inl e | Inr n \<Rightarrow>
        if \<not> n < maxSize - 1 then Inl AssertFail
        else case store (m_data s) (m_end s) c of Inl e \<Rightarrow> Inl e | Inr d \<Rightarrow>
          (let e' = m_end s + 1 in
           case store d e' 0 of Inl e \<Rightarrow> Inl e | Inr d' \<Rightarrow>
             if e' < 0 \<or> e' > int maxSize then Inl Abort
             else Inr \<lparr>m_data = d', m_end = e'\<rparr>))"

definition push_back :: "FixedLengthString \<Rightarrow> cchar \<Rightarrow> fatal + FixedLengthString" where
  "push_back s c =
     (let cap = int maxSize in
      if m_end s < 0 \<or> m_end s \<ge> cap then Inl Abort
      else if m_end s < 0 \<or> m_end s > int maxSize then Inl Abort
      else append_char s c)"

definition pop_back :: "FixedLengthString \<Rightarrow> fatal + FixedLengthString" where
  "pop_back s =
     (case size_fls s of Inl e \<Rightarrow> Inl e | Inr n \<Rightarrow>
        if \<not> n > 0 then Inl AssertFail
        else if m_end s < 0 \<or> m_end s > int maxSize then Inl Abort
        else Inr (s\<lparr>m_end := m_end s - 1\<rparr>))"

subsection \<open>Comparison\<close>

text \<open>
  The loop of \<^verbatim>\<open>compare\<close>: \<open>Some r\<close> is a \<^verbatim>\<open>return r\<close> from inside the loop,
  \<open>None\<close> is falling out of it. The indices stay below \<open>sz\<close>, which is at most the
  number of cells.
\<close>

function compare_loop :: "cchar list \<Rightarrow> cchar list \<Rightarrow> int \<Rightarrow> int \<Rightarrow> int option" where
  "compare_loop d1 d2 i sz =
     (if i < sz then
        (if char_less (d1 ! nat i) (d2 ! nat i) then Some (- 1)
         else if char_less (d2 ! nat i) (d1 ! nat i) then Some 1
         else compare_loop d1 d2 (i + 1) sz)
      else None)"
  by pat_completeness auto
termination
  by (relation "measure (\<lambda>(d1, d2, i, sz). nat (sz - i))") auto

definition compare :: "FixedLengthString \<Rightarrow> FixedLengthString \<Rightarrow> fatal + int" where
  "compare this s =
     (case size_fls this of Inl e \<Rightarrow> Inl e | Inr n1 \<Rightarrow>
        (case size_fls s of Inl e \<Rightarrow> Inl e | Inr n2 \<Rightarrow>
           (let size1 = to_int n1; size2 = to_int n2;
                sz = (if size1 < size2 then size1 else size2)
            in case compare_loop (m_data this) (m_data s) 0 sz of
                 Some r \<Rightarrow> Inr r
               | None \<Rightarrow>
                   if size1 > size2 then Inr 1
                   else if size2 > size1 then Inr (- 1)
                   else Inr 0)))"

definition op_less :: "FixedLengthString \<Rightarrow> FixedLengthString \<Rightarrow> fatal + bool" where
  "op_less lhs rhs = (case compare lhs rhs of Inl e \<Rightarrow> Inl e | Inr r \<Rightarrow> Inr (r < 0))"

definition op_eq :: "FixedLengthString \<Rightarrow> FixedLengthString \<Rightarrow> fatal + bool" where
  "op_eq lhs rhs = (case compare lhs rhs of Inl e \<Rightarrow> Inl e | Inr r \<Rightarrow> Inr (r = 0))"

definition op_neq :: "FixedLengthString \<Rightarrow> FixedLengthString \<Rightarrow> fatal + bool" where
  "op_neq lhs rhs = (case compare lhs rhs of Inl e \<Rightarrow> Inl e | Inr r \<Rightarrow> Inr (r \<noteq> 0))"

subsection \<open>Well-formed objects and their content\<close>

text \<open>
  The array has \<open>maxSize\<close> cells by its type. An object is \<open>valid\<close> when, in addition,
  the cursor points at a cell of the array, the one that holds the terminator: every
  constructor and every append asserts that much.
\<close>

definition wf_array :: "FixedLengthString \<Rightarrow> bool" where
  "wf_array s = (length (m_data s) = maxSize)"

definition valid :: "FixedLengthString \<Rightarrow> bool" where
  "valid s = (wf_array s \<and> 0 \<le> m_end s \<and> m_end s < int maxSize)"

definition content :: "FixedLengthString \<Rightarrow> cchar list" where
  "content s = take (nat (m_end s)) (m_data s)"

text \<open>
  The member comment of \<^verbatim>\<open>m_end\<close> reads "points at the terminating NULL": the cell
  under the cursor holds the zero character.
\<close>

definition terminated :: "FixedLengthString \<Rightarrow> bool" where
  "terminated s = (valid s \<and> m_data s ! nat (m_end s) = 0)"

subsection \<open>The comparison as the specification words it\<close>

text \<open>
  Lexicographic comparison over the shared prefix: the first position at which the two
  sequences differ decides; when the shared prefix has no such position, the shorter
  sequence sorts first.
\<close>

fun first_difference :: "cchar list \<Rightarrow> cchar list \<Rightarrow> (cchar \<times> cchar) option" where
  "first_difference (x # xs) (y # ys) =
     (if x \<noteq> y then Some (x, y) else first_difference xs ys)"
| "first_difference xs ys = None"

definition spec_compare :: "cchar list \<Rightarrow> cchar list \<Rightarrow> int" where
  "spec_compare xs ys =
     (case first_difference xs ys of
        Some (x, y) \<Rightarrow> (if char_less x y then - 1 else 1)
      | None \<Rightarrow>
          if length xs < length ys then - 1
          else if length ys < length xs then 1
          else 0)"

definition char_order :: "(cchar \<times> cchar) set" where
  "char_order = {(x, y). char_less x y}"

section \<open>Rack (rack.h)\<close>

text \<open>
  \<^verbatim>\<open>LetterString\<close> is the \<^verbatim>\<open>FixedLengthString\<close> of letter codes. The member functions
  defined in rack.h are embedded as they stand there. \<^verbatim>\<open>FixedLengthString\<close> declares a
  copy assignment and no move assignment, so every \<^verbatim>\<open>m_tiles = ...\<close>, also the one from
  \<^verbatim>\<open>std::move(other.m_tiles)\<close>, is \<open>assign\<close>. The member \<^verbatim>\<open>m_tiles\<close> is
  default-constructed before a constructor body runs.
\<close>

record Rack =
  m_tiles :: FixedLengthString

definition Rack_ctor :: "fatal + Rack" where
  "Rack_ctor =
     (case assign ctor_default ctor_default of Inl e \<Rightarrow> Inl e | Inr t \<Rightarrow> Inr \<lparr>m_tiles = t\<rparr>)"

definition setTiles :: "Rack \<Rightarrow> FixedLengthString \<Rightarrow> fatal + Rack" where
  "setTiles r tiles =
     (case assign (m_tiles r) tiles of Inl e \<Rightarrow> Inl e | Inr t \<Rightarrow> Inr (r\<lparr>m_tiles := t\<rparr>))"

definition Rack_ctor_tiles :: "FixedLengthString \<Rightarrow> fatal + Rack" where
  "Rack_ctor_tiles tiles = setTiles \<lparr>m_tiles = ctor_default\<rparr> tiles"

definition Rack_copy_ctor :: "Rack \<Rightarrow> fatal + Rack" where
  "Rack_copy_ctor other =
     (case assign ctor_default ctor_default of Inl e \<Rightarrow> Inl e | Inr t0 \<Rightarrow>
        (case assign t0 (m_tiles other) of Inl e \<Rightarrow> Inl e | Inr t \<Rightarrow> Inr \<lparr>m_tiles = t\<rparr>))"

text \<open>
  The move constructor returns the argument as the call leaves it, paired with the new
  rack.
\<close>

definition Rack_move_ctor :: "Rack \<Rightarrow> fatal + (Rack \<times> Rack)" where
  "Rack_move_ctor other =
     (case assign ctor_default (m_tiles other) of Inl e \<Rightarrow> Inl e
      | Inr t \<Rightarrow> Inr (other, \<lparr>m_tiles = t\<rparr>))"

definition tiles :: "Rack \<Rightarrow> FixedLengthString" where
  "tiles r = m_tiles r"

definition empty_rack :: "Rack \<Rightarrow> fatal + bool" where
  "empty_rack r = empty_fls (m_tiles r)"

subsection \<open>Loading, unloading and containment\<close>

text \<open>
  rack.h declares \<^verbatim>\<open>unload\<close>, \<^verbatim>\<open>load\<close> and \<^verbatim>\<open>contains\<close>; their bodies are not among the
  sources at hand, and neither is the letter code of the blank, which is a parameter
  \<open>blank\<close> of the definitions below. Storage and bounds are those of
  \<^verbatim>\<open>FixedLengthString\<close>: tiles leave the rack through \<open>erase\<close> and enter it through
  \<open>append_char\<close>.
\<close>

text \<open>
  Modelled from the spec: the leftmost-in-rack scan for one tile inside \<^verbatim>\<open>unload\<close> and
  \<^verbatim>\<open>contains\<close>, whose code is missing. \<open>find_tile p ts\<close> is the index of the first tile
  of \<open>ts\<close> that satisfies \<open>p\<close>.
\<close>

fun find_tile :: "(cchar \<Rightarrow> bool) \<Rightarrow> cchar list \<Rightarrow> nat option" where
  "find_tile p [] = None"
| "find_tile p (t # ts) = (if p t then Some 0 else map_option Suc (find_tile p ts))"

text \<open>
  Modelled from the spec: the matching rule of \<^verbatim>\<open>unload\<close> and \<^verbatim>\<open>contains\<close>, whose code is
  missing. For a requested letter the first exact match is taken; only if the rack holds
  no exact match, the first blank.
\<close>

definition match_tile :: "cchar \<Rightarrow> cchar list \<Rightarrow> cchar \<Rightarrow> nat option" where
  "match_tile blank ts l =
     (case find_tile (\<lambda>t. t = l) ts of
        Some i \<Rightarrow> Some i
      | None \<Rightarrow> find_tile (\<lambda>t. t = blank) ts)"

text \<open>
  Modelled from the spec: the greedy scan of \<^verbatim>\<open>unload\<close>, whose code is missing. The
  requested letters are taken in order and each removes its matching tile from the
  buffer; \<open>Inr None\<close> reports a letter without a match, \<open>Inl\<close> a fatal failure of the
  buffer.
\<close>

fun discard_tiles ::
  "cchar \<Rightarrow> FixedLengthString \<Rightarrow> cchar list \<Rightarrow> fatal + FixedLengthString option" where
  "discard_tiles blank ts [] = Inr (Some ts)"
| "discard_tiles blank ts (l # ls) =
     (case length_fls ts of Inl e \<Rightarrow> Inl e | Inr n \<Rightarrow>
        (case match_tile blank (take n (m_data ts)) l of
           None \<Rightarrow> Inr None
         | Some i \<Rightarrow>
             (case erase ts (int i) of Inl e \<Rightarrow> Inl e
              | Inr ts' \<Rightarrow> discard_tiles blank ts' ls)))"

text \<open>
  Modelled from the spec: \<^verbatim>\<open>Rack::unload\<close>, whose code is missing. \<open>Inr (Some r')\<close> is
  the return value true with the rack \<open>r'\<close> left behind; \<open>Inr None\<close> is the return value
  false, after which the spec leaves the state of the rack open.
\<close>

definition unload :: "cchar \<Rightarrow> Rack \<Rightarrow> FixedLengthString \<Rightarrow> fatal + Rack option" where
  "unload blank r used =
     (case length_fls used of Inl e \<Rightarrow> Inl e | Inr n \<Rightarrow>
        (case discard_tiles blank (m_tiles r) (take n (m_data used)) of
           Inl e \<Rightarrow> Inl e
         | Inr None \<Rightarrow> Inr None
         | Inr (Some ts) \<Rightarrow> Inr (Some (r\<lparr>m_tiles := ts\<rparr>))))"

text \<open>
  Modelled from the spec: \<^verbatim>\<open>Rack::contains\<close>, whose code is missing. The same scan as
  \<^verbatim>\<open>unload\<close>, of which only the verdict is kept: the rack itself is not returned, as the
  member function is \<^verbatim>\<open>const\<close>.
\<close>

definition contains :: "cchar \<Rightarrow> Rack \<Rightarrow> FixedLengthString \<Rightarrow> fatal + bool" where
  "contains blank r used =
     (case unload blank r used of
        Inl e \<Rightarrow> Inl e
      | Inr None \<Rightarrow> Inr False
      | Inr (Some r') \<Rightarrow> Inr True)"

text \<open>
  Modelled from the spec: the loop of \<^verbatim>\<open>Rack::load\<close>, whose code is missing. Every
  character is appended to the buffer, in order.
\<close>

fun load_tiles :: "FixedLengthString \<Rightarrow> cchar list \<Rightarrow> fatal + FixedLengthString" where
  "load_tiles ts [] = Inr ts"
| "load_tiles ts (l # ls) =
     (case append_char ts l of Inl e \<Rightarrow> Inl e | Inr ts' \<Rightarrow> load_tiles ts' ls)"

text \<open>Modelled from the spec: \<^verbatim>\<open>Rack::load\<close>, whose code is missing.\<close>

definition load :: "Rack \<Rightarrow> FixedLengthString \<Rightarrow> fatal + Rack" where
  "load r seq =
     (case length_fls seq of Inl e \<Rightarrow> Inl e | Inr n \<Rightarrow>
        (case load_tiles (m_tiles r) (take n (m_data seq)) of
           Inl e \<Rightarrow> Inl e
         | Inr ts \<Rightarrow> Inr (r\<lparr>m_tiles := ts\<rparr>)))"

subsection \<open>The scan on plain letter lists\<close>

text \<open>
  The scan of \<open>discard_tiles\<close> without the buffer: what it does to the content.
\<close>

fun discard_list :: "cchar \<Rightarrow> cchar list \<Rightarrow> cchar list \<Rightarrow> cchar list option" where
  "discard_list blank ts [] = Some ts"
| "discard_list blank ts (l # ls) =
     (case match_tile blank ts l of
        None \<Rightarrow> None
      | Some i \<Rightarrow> discard_list blank (take i ts @ drop (Suc i) ts) ls)"

text \<open>The object that \<open>ctor_sn xs (length xs)\<close> builds from the letters \<open>xs\<close>.\<close>

definition letters :: "cchar list \<Rightarrow> FixedLengthString" where
  "letters xs = \<lparr>m_data = xs @ replicate (maxSize - length xs) 0, m_end = int (length xs)\<rparr>"

section \<open>Example objects\<close>

text \<open>Concrete objects at which the theorems below are instantiated.\<close>

definition example_AB :: FixedLengthString where
  "example_AB = \<lparr>m_data = [65, 66] @ replicate 38 0, m_end = 2\<rparr>"

definition example_full :: FixedLengthString where
  "example_full = \<lparr>m_data = replicate 39 65 @ [0], m_end = 39\<rparr>"

definition example_ABC :: FixedLengthString where
  "example_ABC = \<lparr>m_data = [65, 66, 67] @ replicate 37 0, m_end = 3\<rparr>"

section \<open>Basic facts about the accessors\<close>

lemma to_size_type_id: "0 \<le> d \<Longrightarrow> d \<le> 40 \<Longrightarrow> to_size_type d = nat d"
  by (simp add: to_size_type_def)

lemma to_int_id: "n \<le> 40 \<Longrightarrow> to_int n = int n"
  by (simp add: to_int_def)

lemma length_fls_Inr_iff:
  "length_fls s = Inr n \<longleftrightarrow> 0 \<le> m_end s \<and> m_end s \<le> int maxSize \<and> n = nat (m_end s)"
  by (auto simp: length_fls_def Let_def maxSize_def to_size_type_id)

lemma length_fls_Inl_iff:
  "length_fls s = Inl e \<longleftrightarrow> e = Abort \<and> (m_end s < 0 \<or> m_end s > int maxSize)"
proof (cases "0 \<le> m_end s \<and> m_end s \<le> 40")
  case True
  then have "\<not> 40 < nat (m_end s)" by linarith
  with True show ?thesis by (simp add: length_fls_def Let_def maxSize_def to_size_type_id)
next
  case False
  then show ?thesis by (auto simp: length_fls_def Let_def maxSize_def)
qed

lemma length_fls_in_range:
  "0 \<le> m_end s \<Longrightarrow> m_end s \<le> int maxSize \<Longrightarrow> length_fls s = Inr (nat (m_end s))"
  by (simp add: length_fls_Inr_iff)

lemma replicate_update_same: "(replicate k x)[i := x] = replicate k x"
  by (induction k arbitrary: i) (auto split: nat.splits simp: list_update_code)

section \<open>Construction from a character sequence\<close>

lemma ctor_sn_ok:
  assumes "n < maxSize" "n \<le> length s"
  shows "ctor_sn s n = Inr \<lparr>m_data = take n s @ replicate (maxSize - n) 0, m_end = int n\<rparr>"
  using assms
  by (simp add: ctor_sn_def memcpy_def memset_zero_def store_def list_update_append
      replicate_update_same)

text \<open>
  Claim C1. Let \<open>s\<close> hold at least \<open>n\<close> readable characters. If \<open>n < maxSize\<close>, the
  constructor \<^verbatim>\<open>FixedLengthString(s, n)\<close> returns an object whose \<open>length()\<close> is \<open>n\<close>,
  whose cells \<open>[0, n)\<close> are the first \<open>n\<close> characters of \<open>s\<close> and whose cell \<open>n\<close> is
  the terminator. If \<open>n \<ge> maxSize\<close>, the assertion of the constructor fails.
\<close>

theorem ctor_sn_spec:
  "(n < maxSize \<longrightarrow> n \<le> length s \<longrightarrow>
      (\<exists>x. ctor_sn s n = Inr x \<and> length_fls x = Inr n \<and> wf_array x \<and>
           take n (m_data x) = take n s \<and> (\<forall>i<n. m_data x ! i = s ! i) \<and> m_data x ! n = 0))
   \<and> (maxSize \<le> n \<longrightarrow> ctor_sn s n = Inl AssertFail)"
proof (intro conjI impI)
  assume n: "n < maxSize" and s: "n \<le> length s"
  let ?x = "\<lparr>m_data = take n s @ replicate (maxSize - n) 0, m_end = int n\<rparr>"
  have c: "ctor_sn s n = Inr ?x" using n s by (rule ctor_sn_ok)
  have l: "length_fls ?x = Inr n" using n by (simp add: length_fls_Inr_iff)
  have w: "wf_array ?x" using n s by (simp add: wf_array_def)
  have t: "take n (m_data ?x) = take n s" using s by simp
  have i: "\<forall>i<n. m_data ?x ! i = s ! i" using s by (simp add: nth_append)
  have z: "m_data ?x ! n = 0" using n s by (simp add: nth_append)
  from c l w t i z
  show "\<exists>x. ctor_sn s n = Inr x \<and> length_fls x = Inr n \<and> wf_array x \<and>
           take n (m_data x) = take n s \<and> (\<forall>i<n. m_data x ! i = s ! i) \<and> m_data x ! n = 0"
    by blast
next
  assume "maxSize \<le> n"
  then show "ctor_sn s n = Inl AssertFail" by (simp add: ctor_sn_def)
qed

theorem ctor_sn_spec_witness:
  "(2::nat) < maxSize \<and> 2 \<le> length [65, 66, 67 :: cchar] \<and>
   (\<exists>x. ctor_sn [65, 66, 67] 2 = Inr x \<and> length_fls x = Inr 2 \<and> wf_array x \<and>
        take 2 (m_data x) = [65, 66] \<and> m_data x ! 2 = 0) \<and>
   maxSize \<le> 40 \<and> ctor_sn [65, 66, 67] 40 = Inl AssertFail"
  using ctor_sn_spec [of 2 "[65, 66, 67]"] ctor_sn_spec [of 40 "[65, 66, 67]"]
  by (auto simp: maxSize_def)

section \<open>Appending one character\<close>

lemma size_fls_in_range:
  "0 \<le> m_end s \<Longrightarrow> m_end s \<le> int maxSize \<Longrightarrow> size_fls s = Inr (nat (m_end s))"
  by (simp add: size_fls_def length_fls_in_range)

lemma append_char_ok:
  assumes w: "wf_array x" and lo: "0 \<le> m_end x" and hi: "m_end x < int maxSize - 1"
  shows "append_char x c =
           Inr \<lparr>m_data = (m_data x)[nat (m_end x) := c, nat (m_end x) + 1 := 0],
                m_end = m_end x + 1\<rparr>"
proof -
  have sz: "size_fls x = Inr (nat (m_end x))" using lo hi by (simp add: size_fls_in_range)
  have n: "nat (m_end x) < maxSize - 1" using lo hi by linarith
  have len: "length (m_data x) = maxSize" using w by (simp add: wf_array_def)
  have s1: "store (m_data x) (m_end x) c = Inr ((m_data x)[nat (m_end x) := c])"
    using lo hi len by (simp add: store_def)
  have s2: "store ((m_data x)[nat (m_end x) := c]) (m_end x + 1) 0 =
              Inr ((m_data x)[nat (m_end x) := c, nat (m_end x) + 1 := 0])"
    using lo hi len by (simp add: store_def nat_add_distrib)
  show ?thesis
    using sz n s1 s2 lo hi by (simp add: append_char_def Let_def)
qed

lemma append_char_full:
  assumes "length_fls x = Inr n" "maxSize - 1 \<le> n"
  shows "append_char x c = Inl AssertFail"
  using assms by (simp add: append_char_def size_fls_def)

lemma push_back_eq_append_char:
  "0 \<le> m_end x \<Longrightarrow> m_end x < int maxSize \<Longrightarrow> push_back x c = append_char x c"
  by (simp add: push_back_def Let_def)

lemma push_back_at_cap:
  "m_end x = int maxSize \<Longrightarrow> push_back x c = Inl Abort"
  by (simp add: push_back_def Let_def)

text \<open>
  Claim C4. For an object whose \<open>length()\<close> is \<open>n\<close>: if \<open>n < maxSize - 1\<close>, both
  \<^verbatim>\<open>push_back(c)\<close> and \<^verbatim>\<open>operator+=(c)\<close> return the same object, in which \<open>c\<close> stands at
  index \<open>n\<close>, the terminator at index \<open>n + 1\<close>, the cells before \<open>n\<close> are unchanged and
  \<open>length()\<close> is \<open>n + 1\<close>; if \<open>n \<ge> maxSize - 1\<close>, both fail fatally.
\<close>

theorem push_back_spec:
  assumes w: "wf_array x" and l: "length_fls x = Inr n"
  shows "(n < maxSize - 1 \<longrightarrow>
           (\<exists>x'. push_back x c = Inr x' \<and> append_char x c = Inr x' \<and>
                 length_fls x' = Inr (n + 1) \<and> wf_array x' \<and>
                 m_data x' = (m_data x)[n := c, n + 1 := 0] \<and>
                 m_data x' ! n = c \<and> m_data x' ! (n + 1) = 0 \<and>
                 take n (m_data x') = take n (m_data x)))
       \<and> (maxSize - 1 \<le> n \<longrightarrow>
           push_back x c = Inl (if n = maxSize - 1 then AssertFail else Abort) \<and>
           append_char x c = Inl AssertFail)"
proof -
 have A: "\<exists>x'. push_back x c = Inr x' \<and> append_char x c = Inr x' \<and>
                 length_fls x' = Inr (n + 1) \<and> wf_array x' \<and>
                 m_data x' = (m_data x)[n := c, n + 1 := 0] \<and>
                 m_data x' ! n = c \<and> m_data x' ! (n + 1) = 0 \<and>
                 take n (m_data x') = take n (m_data x)" if n: "n < maxSize - 1"
 proof -
  from l have e: "0 \<le> m_end x" "m_end x \<le> int maxSize" "n = nat (m_end x)"
    by (simp_all add: length_fls_Inr_iff)
  from e n have hi: "m_end x < int maxSize - 1" by linarith
  let ?x' = "\<lparr>m_data = (m_data x)[n := c, n + 1 := 0], m_end = m_end x + 1\<rparr>"
  have a: "append_char x c = Inr ?x'"
    using append_char_ok [OF w e(1) hi] e(3) by simp
  have p: "push_back x c = Inr ?x'"
    using a e hi by (simp add: push_back_eq_append_char)
  have len: "length (m_data x) = maxSize" using w by (simp add: wf_array_def)
  have l': "length_fls ?x' = Inr (n + 1)"
    using e hi by (simp add: length_fls_Inr_iff nat_add_distrib)
  have w': "wf_array ?x'" using len by (simp add: wf_array_def)
  have c1: "m_data ?x' ! n = c" using len n by simp
  have c2: "m_data ?x' ! (n + 1) = 0" using len n by simp
  have c3: "take n (m_data ?x') = take n (m_data x)" by simp
  from a p l' w' c1 c2 c3
  show ?thesis
    by (intro exI [of _ ?x']) simp
 qed
 have B: "push_back x c = Inl (if n = maxSize - 1 then AssertFail else Abort) \<and>
           append_char x c = Inl AssertFail" if n: "maxSize - 1 \<le> n"
 proof -
  from l have e: "0 \<le> m_end x" "m_end x \<le> int maxSize" "n = nat (m_end x)"
    by (simp_all add: length_fls_Inr_iff)
  have a: "append_char x c = Inl AssertFail" using l n by (rule append_char_full)
  have p: "push_back x c = Inl (if n = maxSize - 1 then AssertFail else Abort)"
  proof (cases "m_end x = int maxSize")
    case True
    then have "n = maxSize" using e by simp
    with True show ?thesis by (simp add: push_back_at_cap maxSize_def)
  next
    case False
    with e have lt: "m_end x < int maxSize" by simp
    with e n have "n = maxSize - 1" by linarith
    with lt e a show ?thesis by (simp add: push_back_eq_append_char)
  qed
  from p a show ?thesis by simp
 qed
 from A B show ?thesis by blast
qed

theorem push_back_spec_witness:
  "wf_array example_AB \<and> length_fls example_AB = Inr 2 \<and> (2::nat) < maxSize - 1 \<and>
   (\<exists>x'. push_back example_AB 67 = Inr x' \<and> append_char example_AB 67 = Inr x' \<and>
         length_fls x' = Inr 3 \<and> m_data x' ! 2 = 67 \<and> m_data x' ! 3 = 0) \<and>
   wf_array example_full \<and> length_fls example_full = Inr 39 \<and> maxSize - 1 \<le> 39 \<and>
   push_back example_full 67 = Inl AssertFail \<and> append_char example_full 67 = Inl AssertFail"
proof -
  have w1: "wf_array example_AB" by (simp add: wf_array_def example_AB_def maxSize_def)
  have l1: "length_fls example_AB = Inr 2" by (simp add: length_fls_Inr_iff example_AB_def maxSize_def)
  have w2: "wf_array example_full" by (simp add: wf_array_def example_full_def maxSize_def)
  have l2: "length_fls example_full = Inr 39" by (simp add: length_fls_Inr_iff example_full_def maxSize_def)
  show ?thesis
    using push_back_spec [OF w1 l1, of 67] push_back_spec [OF w2 l2, of 67] w1 l1 w2 l2
    by (auto simp: maxSize_def)
qed

section \<open>Erasing one character\<close>

lemma memmove_left_ok:
  assumes "0 \<le> i" "i < e" "e < int (length d)"
  shows "memmove_left d i (e - i) =
           Inr (take (nat i) d @ take (nat (e - i)) (drop (nat i + 1) d) @ drop (nat e) d)"
  using assms by (simp add: memmove_left_def)

lemma take_erase_cells:
  assumes "i < n" "n < length d"
  shows "take (n - 1) (take i d @ take (n - i) (drop (i + 1) d) @ drop n d) =
           take i (take n d) @ drop (i + 1) (take n d)"
proof -
  from assms obtain k where n: "n = Suc (i + k)" using less_imp_Suc_add by blast
  have i: "i \<le> length d" and k: "Suc k \<le> length d - Suc i" using assms n by simp_all
  have "take (n - 1) (take i d @ take (n - i) (drop (i + 1) d) @ drop n d) =
          take i d @ take k (drop (Suc i) d)"
    using i k by (simp add: n min_absorb2 min_absorb1)
  moreover have "drop (i + 1) (take n d) = take k (drop (Suc i) d)"
    by (simp add: n drop_take)
  moreover have "take i (take n d) = take i d" by (simp add: n min_absorb1)
  ultimately show ?thesis by simp
qed

lemma length_erase_cells:
  assumes "i < n" "n < length d"
  shows "length (take i d @ take (n - i) (drop (i + 1) d) @ drop n d) = length d"
proof -
  from assms obtain k where n: "n = Suc (i + k)" using less_imp_Suc_add by blast
  have i: "i \<le> length d" and k: "Suc k \<le> length d - Suc i" using assms n by simp_all
  show ?thesis using i k assms by (simp add: n min_absorb2)
qed

lemma nth_erase_cells:
  assumes "i < n" "n < length d" "i \<le> k" "k < n"
  shows "(take i d @ take (n - i) (drop (i + 1) d) @ drop n d) ! k = d ! (k + 1)"
proof -
  have la: "length (take i d) = i" using assms by simp
  have lb: "k - i < length (take (n - i) (drop (i + 1) d))" using assms by simp
  have "(take i d @ take (n - i) (drop (i + 1) d) @ drop n d) ! k =
          (take (n - i) (drop (i + 1) d) @ drop n d) ! (k - i)"
    using assms la by (simp add: nth_append)
  also have "\<dots> = take (n - i) (drop (i + 1) d) ! (k - i)"
    using lb by (simp only: nth_append if_True)
  also have "\<dots> = d ! (k + 1)" using assms by simp
  finally show ?thesis .
qed

lemma erase_ok:
  assumes v: "valid x" and lo: "0 \<le> i" and hi: "i < m_end x"
  shows "erase x i =
           Inr \<lparr>m_data = take (nat i) (m_data x) @
                          take (nat (m_end x - i)) (drop (nat i + 1) (m_data x)) @
                          drop (nat (m_end x)) (m_data x),
                m_end = m_end x - 1\<rparr>"
proof -
  from v have "m_end x < int (length (m_data x))" by (simp add: valid_def wf_array_def)
  with lo hi show ?thesis by (simp add: erase_def memmove_left_ok)
qed

lemma erase_valid:
  assumes v: "valid x" and lo: "0 \<le> i" and hi: "i < m_end x" and er: "erase x i = Inr x'"
  shows "valid x'"
proof -
  from v have len: "length (m_data x) = maxSize" and e: "0 \<le> m_end x" "m_end x < int maxSize"
    by (simp_all add: valid_def wf_array_def)
  have j: "nat i < nat (m_end x)" and n: "nat (m_end x) < length (m_data x)"
    using lo hi e len by simp_all
  have cnt: "nat (m_end x - i) = nat (m_end x) - nat i" using lo hi by simp
  have "length (m_data x') = maxSize"
    using er length_erase_cells [OF j n] len cnt
    unfolding erase_ok [OF v lo hi] by auto
  moreover have "m_end x' = m_end x - 1"
    using er unfolding erase_ok [OF v lo hi] by auto
  ultimately show ?thesis using e lo hi by (simp add: valid_def wf_array_def)
qed

lemma erase_content:
  assumes v: "valid x" and lo: "0 \<le> i" and hi: "i < m_end x" and er: "erase x i = Inr x'"
  shows "content x' = take (nat i) (content x) @ drop (nat i + 1) (content x)"
proof -
  from v have len: "length (m_data x) = maxSize" and e: "0 \<le> m_end x" "m_end x < int maxSize"
    by (simp_all add: valid_def wf_array_def)
  have j: "nat i < nat (m_end x)" and n: "nat (m_end x) < length (m_data x)"
    using lo hi e len by simp_all
  have cnt: "nat (m_end x - i) = nat (m_end x) - nat i" using lo hi by simp
  have m: "nat (m_end x - 1) = nat (m_end x) - 1" using lo hi by simp
  from er have x': "x' = \<lparr>m_data = take (nat i) (m_data x) @
                          take (nat (m_end x) - nat i) (drop (nat i + 1) (m_data x)) @
                          drop (nat (m_end x)) (m_data x),
                m_end = m_end x - 1\<rparr>"
    unfolding erase_ok [OF v lo hi] cnt by simp
  show ?thesis
    using take_erase_cells [OF j n] by (simp add: x' content_def m)
qed

text \<open>
  Claim C7. For a valid object and an iterator \<open>i\<close> inside \<open>[begin(), end())\<close>,
  \<^verbatim>\<open>erase(i)\<close> returns an object that is one shorter, whose content is the old content
  without its character at index \<open>i\<close>: the prefix \<open>[0, i)\<close> is unchanged and every later
  cell holds what its right neighbour held.
\<close>

theorem erase_spec:
  assumes v: "valid x" and lo: "0 \<le> i" and hi: "i < m_end x"
  shows "\<exists>x'. erase x i = Inr x' \<and> valid x' \<and>
              length_fls x = Inr (nat (m_end x)) \<and>
              length_fls x' = Inr (nat (m_end x) - 1) \<and>
              content x' = take (nat i) (content x) @ drop (nat i + 1) (content x) \<and>
              take (nat i) (m_data x') = take (nat i) (m_data x) \<and>
              (\<forall>k. nat i \<le> k \<and> k < nat (m_end x) - 1 \<longrightarrow> m_data x' ! k = m_data x ! (k + 1))"
proof -
  define d n j where "d = m_data x" and "n = nat (m_end x)" and "j = nat i"
  define d' where "d' = take j d @ take (n - j) (drop (j + 1) d) @ drop n d"
  define x' where "x' = \<lparr>m_data = d', m_end = m_end x - 1\<rparr>"
  from v have len: "length d = maxSize" and e: "0 \<le> m_end x" "m_end x < int maxSize"
    by (simp_all add: valid_def wf_array_def d_def)
  have j: "j < n" and n: "n < length d" using lo hi e len by (simp_all add: j_def n_def)
  have cnt: "nat (m_end x - i) = n - j" using lo hi by (simp add: j_def n_def)
  have er: "erase x i = Inr x'"
    using erase_ok [OF v lo hi] cnt by (simp add: x'_def d'_def d_def n_def j_def)
  have len': "length d' = maxSize"
    using length_erase_cells [OF j n] len by (simp add: d'_def)
  have v': "valid x'" using len' e lo hi by (simp add: valid_def wf_array_def x'_def)
  have l: "length_fls x = Inr n" using e by (simp add: length_fls_Inr_iff n_def)
  have l': "length_fls x' = Inr (n - 1)"
    using e lo hi by (simp add: length_fls_Inr_iff nat_diff_distrib x'_def n_def)
  have m': "nat (m_end x') = n - 1" using lo hi by (simp add: x'_def n_def nat_diff_distrib)
  have c: "content x' = take j (content x) @ drop (j + 1) (content x)"
    using take_erase_cells [OF j n] m'
    by (simp add: content_def x'_def d'_def d_def [symmetric] n_def [symmetric])
  have p: "take j (m_data x') = take j d"
    using j n by (simp add: x'_def d'_def min_absorb2)
  have sh: "m_data x' ! k = d ! (k + 1)" if "j \<le> k \<and> k < n - 1" for k
  proof -
    from that have "j \<le> k" "k < n" by auto
    from nth_erase_cells [OF j n this] show ?thesis by (simp add: x'_def d'_def)
  qed
  from er v' l l' c p sh show ?thesis
    unfolding d_def n_def j_def by (intro exI [of _ x']) simp
qed

theorem erase_spec_witness:
  "valid example_ABC \<and> (0::int) \<le> 1 \<and> 1 < m_end example_ABC \<and>
   (\<exists>x'. erase example_ABC 1 = Inr x' \<and> length_fls example_ABC = Inr 3 \<and>
         length_fls x' = Inr 2 \<and> content x' = [65, 67])"
proof -
  have v: "valid example_ABC" by (simp add: valid_def wf_array_def example_ABC_def maxSize_def)
  have h: "1 < m_end example_ABC" by (simp add: example_ABC_def)
  have c: "content example_ABC = [65, 66, 67]" by (simp add: content_def example_ABC_def)
  have m: "m_end example_ABC = 3" by (simp add: example_ABC_def)
  show ?thesis
    using erase_spec [OF v _ h] v h c m by auto
qed

section \<open>Comparison\<close>

declare compare_loop.simps [simp del]


lemma char_less_irrefl: "\<not> char_less x x"
  by (simp add: char_less_def)

lemma char_less_total: "\<not> char_less x y \<Longrightarrow> \<not> char_less y x \<Longrightarrow> x = y"
proof -
  assume "\<not> char_less x y" "\<not> char_less y x"
  then have "sint x = sint y" by (simp add: char_less_def)
  then show "x = y" by (rule signed_word_eqI)
qed

lemma char_less_asym: "char_less x y \<Longrightarrow> \<not> char_less y x"
  by (simp add: char_less_def)

lemma spec_compare_Nil [simp]:
  "spec_compare [] [] = 0"
  "spec_compare [] (y # ys) = - 1"
  "spec_compare (x # xs) [] = 1"
  by (simp_all add: spec_compare_def)

lemma spec_compare_Cons:
  "spec_compare (x # xs) (y # ys) =
     (if char_less x y then - 1 else if char_less y x then 1 else spec_compare xs ys)"
  using char_less_irrefl [of x] char_less_total [of x y] char_less_asym [of x y]
  by (auto simp: spec_compare_def)

lemma spec_compare_lexord:
  "(spec_compare xs ys = 0 \<longleftrightarrow> xs = ys) \<and>
   (spec_compare xs ys = - 1 \<longleftrightarrow> (xs, ys) \<in> lexord char_order) \<and>
   (spec_compare xs ys = 1 \<longleftrightarrow> (ys, xs) \<in> lexord char_order)"
proof (induction xs ys rule: list_induct2')
  case (4 x xs y ys)
  show ?case
    using 4 char_less_irrefl [of x] char_less_total [of x y] char_less_asym [of x y]
      char_less_asym [of y x]
    by (auto simp: spec_compare_Cons char_order_def)
qed (simp_all add: char_order_def)

lemma spec_compare_range: "spec_compare xs ys \<in> {- 1, 0, 1}"
  by (induction xs ys rule: list_induct2') (simp_all add: spec_compare_Cons)

lemma compare_loop_spec:
  assumes "i \<le> n1" "i \<le> n2" "n1 \<le> length d1" "n2 \<le> length d2"
  shows "(case compare_loop d1 d2 (int i) (int (min n1 n2)) of
            Some r \<Rightarrow> r
          | None \<Rightarrow> if int n1 > int n2 then 1 else if int n2 > int n1 then - 1 else 0) =
         spec_compare (drop i (take n1 d1)) (drop i (take n2 d2))"
  using assms
proof (induction "min n1 n2 - i" arbitrary: i)
  case 0
  then have i: "i = min n1 n2" by simp
  have loop: "compare_loop d1 d2 (int i) (int (min n1 n2)) = None"
    by (subst compare_loop.simps) (simp add: i)
  show ?case
  proof (cases "n1 \<le> n2")
    case True
    then have "i = n1" using i by simp
    then have a: "drop i (take n1 d1) = []" by simp
    show ?thesis
    proof (cases "n1 = n2")
      case True
      then show ?thesis using loop a \<open>i = n1\<close> by simp
    next
      case False
      then have "n1 < n2" using \<open>n1 \<le> n2\<close> by simp
      then have "drop i (take n2 d2) \<noteq> []" using \<open>i = n1\<close> 0 by simp
      then obtain y ys where "drop i (take n2 d2) = y # ys" by (cases "drop i (take n2 d2)") auto
      then show ?thesis using loop a \<open>n1 < n2\<close> by simp
    qed
  next
    case False
    then have "n2 < n1" "i = n2" using i by simp_all
    then have b: "drop i (take n2 d2) = []" by simp
    have "drop i (take n1 d1) \<noteq> []" using \<open>i = n2\<close> \<open>n2 < n1\<close> 0 by simp
    then obtain x xs where "drop i (take n1 d1) = x # xs" by (cases "drop i (take n1 d1)") auto
    then show ?thesis using loop b \<open>n2 < n1\<close> by simp
  qed
next
  case (Suc k)
  then have lt: "i < n1" "i < n2" by simp_all
  have a: "drop i (take n1 d1) = d1 ! i # drop (Suc i) (take n1 d1)"
    using lt Suc.prems by (simp add: Cons_nth_drop_Suc [symmetric])
  have b: "drop i (take n2 d2) = d2 ! i # drop (Suc i) (take n2 d2)"
    using lt Suc.prems by (simp add: Cons_nth_drop_Suc [symmetric])
  have IH: "(case compare_loop d1 d2 (int (Suc i)) (int (min n1 n2)) of
            Some r \<Rightarrow> r
          | None \<Rightarrow> if int n1 > int n2 then 1 else if int n2 > int n1 then - 1 else 0) =
         spec_compare (drop (Suc i) (take n1 d1)) (drop (Suc i) (take n2 d2))"
    using Suc.hyps(1) [of "Suc i"] Suc.hyps(2) Suc.prems lt by simp
  have step: "compare_loop d1 d2 (int i) (int (min n1 n2)) =
          (if char_less (d1 ! i) (d2 ! i) then Some (- 1)
           else if char_less (d2 ! i) (d1 ! i) then Some 1
           else compare_loop d1 d2 (int (Suc i)) (int (min n1 n2)))"
    using lt by (subst compare_loop.simps) (simp add: add.commute)
  show ?case
    unfolding a b spec_compare_Cons step using IH by simp
qed

lemma compare_content:
  assumes wa: "wf_array a" and wb: "wf_array b"
    and la: "length_fls a = Inr n1" and lb: "length_fls b = Inr n2"
  shows "compare a b = Inr (spec_compare (content a) (content b))"
proof -
  from la have a: "0 \<le> m_end a" "m_end a \<le> int maxSize" "n1 = nat (m_end a)"
    by (simp_all add: length_fls_Inr_iff)
  from lb have b: "0 \<le> m_end b" "m_end b \<le> int maxSize" "n2 = nat (m_end b)"
    by (simp_all add: length_fls_Inr_iff)
  have n1: "n1 \<le> length (m_data a)" and n2: "n2 \<le> length (m_data b)"
    using wa wb a b by (simp_all add: wf_array_def)
  have t1: "to_int n1 = int n1" and t2: "to_int n2 = int n2"
    using a b by (simp_all add: to_int_id maxSize_def)
  have sz: "(if int n1 < int n2 then int n1 else int n2) = int (min n1 n2)"
    by (simp add: min_def)
  have "compare a b =
          Inr (case compare_loop (m_data a) (m_data b) 0
                      (if int n1 < int n2 then int n1 else int n2) of
                 Some r \<Rightarrow> r
               | None \<Rightarrow> if int n1 > int n2 then 1 else if int n2 > int n1 then - 1 else 0)"
    by (simp add: compare_def size_fls_def la lb Let_def t1 t2 split: option.split)
  also have "\<dots> =
          Inr (case compare_loop (m_data a) (m_data b) (int 0) (int (min n1 n2)) of
                 Some r \<Rightarrow> r
               | None \<Rightarrow> if int n1 > int n2 then 1 else if int n2 > int n1 then - 1 else 0)"
    by (simp add: sz)
  also have "\<dots> = Inr (spec_compare (drop 0 (take n1 (m_data a))) (drop 0 (take n2 (m_data b))))"
    using compare_loop_spec [of 0 n1 n2 "m_data a" "m_data b"] n1 n2 by simp
  finally show ?thesis by (simp add: content_def a(3) b(3))
qed

lemma compare_corrupt:
  "length_fls a = Inl e \<Longrightarrow> compare a b = Inl e"
  "length_fls a = Inr n \<Longrightarrow> length_fls b = Inl e \<Longrightarrow> compare a b = Inl e"
  by (simp_all add: compare_def size_fls_def)

lemma length_content:
  "wf_array a \<Longrightarrow> length_fls a = Inr n \<Longrightarrow> length (content a) = n"
  by (auto simp: content_def wf_array_def length_fls_Inr_iff)

text \<open>
  Claim C5. For two objects whose lengths pass the check of \<open>length()\<close>, \<^verbatim>\<open>compare\<close>
  returns the lexicographic comparison of their contents as the specification words it:
  \<open>-1\<close> exactly when the first content is below the second in the lexicographic order
  (a proper prefix counts as below), \<open>1\<close> exactly in the converse case, and \<open>0\<close>
  exactly when lengths and contents are equal. The operators \<^verbatim>\<open>==\<close>, \<^verbatim>\<open>!=\<close> and \<^verbatim>\<open><\<close>
  return the matching truth values.
\<close>

theorem compare_spec:
  assumes wa: "wf_array a" and wb: "wf_array b"
    and la: "length_fls a = Inr n1" and lb: "length_fls b = Inr n2"
  shows "compare a b = Inr (spec_compare (content a) (content b)) \<and>
         (compare a b = Inr 0 \<longleftrightarrow> n1 = n2 \<and> content a = content b) \<and>
         (compare a b = Inr (- 1) \<longleftrightarrow> (content a, content b) \<in> lexord char_order) \<and>
         (compare a b = Inr 1 \<longleftrightarrow> (content b, content a) \<in> lexord char_order) \<and>
         op_eq a b = Inr (content a = content b) \<and>
         op_neq a b = Inr (content a \<noteq> content b) \<and>
         op_less a b = Inr ((content a, content b) \<in> lexord char_order)"
proof -
  let ?r = "spec_compare (content a) (content b)"
  have c: "compare a b = Inr ?r" using assms by (rule compare_content)
  have z: "?r = 0 \<longleftrightarrow> content a = content b"
    and m: "?r = - 1 \<longleftrightarrow> (content a, content b) \<in> lexord char_order"
    and p: "?r = 1 \<longleftrightarrow> (content b, content a) \<in> lexord char_order"
    using spec_compare_lexord [of "content a" "content b"] by simp_all
  have len: "content a = content b \<Longrightarrow> n1 = n2"
    using length_content [OF wa la] length_content [OF wb lb] by simp
  have neg: "?r < 0 \<longleftrightarrow> ?r = - 1"
    using spec_compare_range [of "content a" "content b"] by auto
  show ?thesis
    using c z m p len neg by (auto simp: op_eq_def op_neq_def op_less_def)
qed

lemma content_example_AB: "content example_AB = [65, 66]"
  by (simp add: content_def example_AB_def)

lemma content_example_ABC: "content example_ABC = [65, 66, 67]"
  by (simp add: content_def example_ABC_def)

lemma wf_example_AB: "wf_array example_AB" "length_fls example_AB = Inr 2"
  by (simp_all add: wf_array_def length_fls_Inr_iff example_AB_def maxSize_def)

lemma wf_example_ABC: "wf_array example_ABC" "length_fls example_ABC = Inr 3"
  by (simp_all add: wf_array_def length_fls_Inr_iff example_ABC_def maxSize_def)

theorem compare_spec_witness:
  "wf_array example_AB \<and> wf_array example_ABC \<and>
   length_fls example_AB = Inr 2 \<and> length_fls example_ABC = Inr 3 \<and>
   compare example_AB example_ABC = Inr (- 1) \<and>
   compare example_ABC example_AB = Inr 1 \<and>
   compare example_AB example_AB = Inr 0 \<and>
   op_less example_AB example_ABC = Inr True \<and>
   op_eq example_AB example_ABC = Inr False \<and>
   op_neq example_AB example_ABC = Inr True"
proof -
  have 1: "([65, 66], [65, 66, 67 :: cchar]) \<in> lexord char_order" by simp
  show ?thesis
    using compare_spec [OF wf_example_AB(1) wf_example_ABC(1) wf_example_AB(2) wf_example_ABC(2),
        THEN conjunct2]
      compare_spec [OF wf_example_ABC(1) wf_example_AB(1) wf_example_ABC(2) wf_example_AB(2),
        THEN conjunct2]
      compare_spec [OF wf_example_AB(1) wf_example_AB(1) wf_example_AB(2) wf_example_AB(2),
        THEN conjunct2]
      wf_example_AB wf_example_ABC 1
    by (simp add: content_example_AB content_example_ABC char_order_def char_less_def)
qed

lemma pop_back_ok:
  assumes "0 < m_end x" "m_end x \<le> int maxSize"
  shows "pop_back x = Inr (x\<lparr>m_end := m_end x - 1\<rparr>)"
  using assms by (simp add: pop_back_def size_fls_in_range)

text \<open>
  Claim C6. For an object whose \<open>length()\<close> is below \<open>maxSize - 1\<close>, \<^verbatim>\<open>push_back(c)\<close>
  followed by \<^verbatim>\<open>pop_back()\<close> succeeds and yields an object that \<^verbatim>\<open>operator==\<close> finds equal
  to the original one, with the same content and length.
\<close>

theorem push_back_pop_back:
  assumes w: "wf_array x" and l: "length_fls x = Inr n" and n: "n < maxSize - 1"
  shows "\<exists>x' x''. push_back x c = Inr x' \<and> pop_back x' = Inr x'' \<and>
                  op_eq x'' x = Inr True \<and> content x'' = content x \<and>
                  length_fls x'' = Inr n"
proof -
  from l have e: "0 \<le> m_end x" "m_end x \<le> int maxSize" "n = nat (m_end x)"
    by (simp_all add: length_fls_Inr_iff)
  from e n have hi: "m_end x < int maxSize - 1" by linarith
  define x' where "x' = \<lparr>m_data = (m_data x)[n := c, n + 1 := 0], m_end = m_end x + 1\<rparr>"
  define x'' where "x'' = x'\<lparr>m_end := m_end x' - 1\<rparr>"
  have a: "append_char x c = Inr x'"
    using append_char_ok [OF w e(1) hi] e(3) by (simp add: x'_def)
  have p: "push_back x c = Inr x'"
    using a e hi by (simp add: push_back_eq_append_char)
  have q: "pop_back x' = Inr x''"
    unfolding x''_def using e hi by (intro pop_back_ok) (simp_all add: x'_def)
  have m: "m_end x'' = m_end x" by (simp add: x''_def x'_def)
  have c: "content x'' = content x"
    using e by (simp add: content_def x''_def x'_def)
  have w'': "wf_array x''" using w by (simp add: wf_array_def x''_def x'_def)
  have l'': "length_fls x'' = Inr n" using e m by (simp add: length_fls_Inr_iff)
  have "compare x'' x = Inr (spec_compare (content x'') (content x))"
    using w'' w l'' l by (rule compare_content)
  then have "compare x'' x = Inr 0" using c spec_compare_lexord [of "content x" "content x"] by simp
  then have eq: "op_eq x'' x = Inr True" by (simp add: op_eq_def)
  from p q eq c l'' show ?thesis by blast
qed

theorem push_back_pop_back_witness:
  "wf_array example_AB \<and> length_fls example_AB = Inr 2 \<and> (2::nat) < maxSize - 1 \<and>
   (\<exists>x' x''. push_back example_AB 67 = Inr x' \<and> pop_back x' = Inr x'' \<and>
             op_eq x'' example_AB = Inr True \<and> content x'' = [65, 66] \<and>
             length_fls x'' = Inr 2)"
  using push_back_pop_back [OF wf_example_AB, of 67] wf_example_AB
  by (simp add: maxSize_def content_example_AB)

section \<open>Copy, move and assignment\<close>

lemma memcpy_zero_cells: "memcpy memset_zero src 0 = Inr memset_zero"
  by (simp add: memcpy_def)

lemma copy_ctor_unfold:
  assumes "size_fls s = Inr n"
  shows "copy_ctor s =
           (case memcpy memset_zero (m_data s) n of Inl e \<Rightarrow> Inl e | Inr d \<Rightarrow>
              (case store d (int n) 0 of Inl e \<Rightarrow> Inl e | Inr d' \<Rightarrow>
                 Inr \<lparr>m_data = d', m_end = int n\<rparr>))"
proof -
  from assms have n: "n \<le> 40"
    by (auto simp: size_fls_def length_fls_Inr_iff maxSize_def)
  then have t: "to_int n = int n" by (rule to_int_id)
  show ?thesis
  proof (cases "n = 0")
    case True
    have "size_fls s = Inr 0" using assms True by simp
    then show ?thesis
      unfolding True
      by (simp add: copy_ctor_def Let_def to_int_def maxSize_def QUACKLE_FIXEDSTRING_CAPACITY_def
          memcpy_zero_cells split: sum.split)
  next
    case False
    then show ?thesis
      using n
      by (simp add: copy_ctor_def assms t Let_def maxSize_def QUACKLE_FIXEDSTRING_CAPACITY_def)
  qed
qed

lemma move_ctor_unfold:
  assumes "size_fls s = Inr n"
  shows "move_ctor s =
           (case memcpy memset_zero (m_data s) n of Inl e \<Rightarrow> Inl e | Inr d \<Rightarrow>
              (case store d (int n) 0 of Inl e \<Rightarrow> Inl e | Inr d' \<Rightarrow>
                 Inr (s, \<lparr>m_data = d', m_end = int n\<rparr>)))"
proof -
  from assms have n: "n \<le> 40"
    by (auto simp: size_fls_def length_fls_Inr_iff maxSize_def)
  then have t: "to_int n = int n" by (rule to_int_id)
  show ?thesis by (simp add: move_ctor_def assms t Let_def)
qed

lemma assign_unfold:
  assumes "size_fls s = Inr n"
  shows "assign this s =
           (case memcpy memset_zero (m_data s) n of Inl e \<Rightarrow> Inl e | Inr d \<Rightarrow>
              (case store d (int n) 0 of Inl e \<Rightarrow> Inl e | Inr d' \<Rightarrow>
                 Inr \<lparr>m_data = d', m_end = int n\<rparr>))"
proof -
  from assms have n: "n \<le> 40"
    by (auto simp: size_fls_def length_fls_Inr_iff maxSize_def)
  then have t: "to_int n = int n" by (rule to_int_id)
  show ?thesis
  proof (cases "n = 0")
    case True
    have "size_fls s = Inr 0" using assms True by simp
    then show ?thesis
      unfolding True
      by (simp add: assign_def Let_def to_int_def maxSize_def QUACKLE_FIXEDSTRING_CAPACITY_def
          memcpy_zero_cells split: sum.split)
  next
    case False
    then show ?thesis
      using n
      by (simp add: assign_def assms t Let_def maxSize_def QUACKLE_FIXEDSTRING_CAPACITY_def split: sum.split)
  qed
qed

lemma move_ctor_eq_copy_ctor: "map_sum id snd (move_ctor s) = copy_ctor s"
proof (cases "size_fls s")
  case (Inl e)
  then show ?thesis by (simp add: move_ctor_def copy_ctor_def)
next
  case (Inr n)
  show ?thesis
    unfolding move_ctor_unfold [OF Inr] copy_ctor_unfold [OF Inr]
    by (simp split: sum.split)
qed

lemma assign_eq_copy_ctor: "assign this s = copy_ctor s"
proof (cases "size_fls s")
  case (Inl e)
  then show ?thesis by (simp add: assign_def copy_ctor_def)
next
  case (Inr n)
  show ?thesis
    unfolding assign_unfold [OF Inr] copy_ctor_unfold [OF Inr] ..
qed

lemma copy_ctor_valid:
  assumes v: "valid s"
  shows "copy_ctor s =
     Inr \<lparr>m_data = content s @ replicate (maxSize - nat (m_end s)) 0, m_end = m_end s\<rparr>"
proof -
  from v have len: "length (m_data s) = maxSize" and e: "0 \<le> m_end s" "m_end s < int maxSize"
    by (simp_all add: valid_def wf_array_def)
  have sz: "size_fls s = Inr (nat (m_end s))" using e by (simp add: size_fls_in_range)
  have n: "nat (m_end s) < maxSize" using e by simp
  show ?thesis
    unfolding copy_ctor_unfold [OF sz]
    using len e n
    by (simp add: memcpy_def memset_zero_def store_def content_def list_update_append
        replicate_update_same)
qed

lemma move_ctor_source: "move_ctor s = Inr p \<Longrightarrow> fst p = s"
  by (auto simp: move_ctor_def Let_def split: sum.splits)

lemma Rack_move_ctor_source: "Rack_move_ctor r = Inr p \<Longrightarrow> fst p = r"
  by (auto simp: Rack_move_ctor_def split: sum.splits)

lemma Rack_move_ctor_eq_copy_ctor:
  "map_sum id (\<lambda>p. m_tiles (snd p)) (Rack_move_ctor r) = copy_ctor (m_tiles r)"
  by (simp add: Rack_move_ctor_def assign_eq_copy_ctor split: sum.split)

lemma valid_example_AB: "valid example_AB"
  by (simp add: valid_def wf_array_def example_AB_def maxSize_def)

text \<open>
  Claim C10. The move constructor returns exactly what the copy constructor returns, the
  fatal outcomes included, and so does the move constructor of \<^verbatim>\<open>Rack\<close> for its tiles;
  neither changes its argument. For a valid source the new object has the cursor and the
  content of the source, the terminator behind its content, and \<^verbatim>\<open>operator==\<close> finds it
  equal to the source.
\<close>

theorem move_ctor_spec:
  "map_sum id snd (move_ctor s) = copy_ctor s \<and>
   map_sum id (\<lambda>p. m_tiles (snd p)) (Rack_move_ctor r) = copy_ctor (m_tiles r) \<and>
   (\<forall>p. move_ctor s = Inr p \<longrightarrow> fst p = s) \<and>
   (\<forall>p. Rack_move_ctor r = Inr p \<longrightarrow> fst p = r) \<and>
   (valid s \<longrightarrow>
      (\<exists>d. move_ctor s = Inr (s, d) \<and> copy_ctor s = Inr d \<and>
           Rack_move_ctor \<lparr>m_tiles = s\<rparr> = Inr (\<lparr>m_tiles = s\<rparr>, \<lparr>m_tiles = d\<rparr>) \<and>
           valid d \<and> m_end d = m_end s \<and> content d = content s \<and>
           m_data d ! nat (m_end d) = 0 \<and> op_eq d s = Inr True))"
proof -
  have V: "\<exists>d. move_ctor s = Inr (s, d) \<and> copy_ctor s = Inr d \<and>
           Rack_move_ctor \<lparr>m_tiles = s\<rparr> = Inr (\<lparr>m_tiles = s\<rparr>, \<lparr>m_tiles = d\<rparr>) \<and>
           valid d \<and> m_end d = m_end s \<and> content d = content s \<and>
           m_data d ! nat (m_end d) = 0 \<and> op_eq d s = Inr True" if v: "valid s"
  proof -
    define n where "n = nat (m_end s)"
    define d where "d = \<lparr>m_data = content s @ replicate (maxSize - n) 0, m_end = m_end s\<rparr>"
    from v have len: "length (m_data s) = maxSize" and e: "0 \<le> m_end s" "m_end s < int maxSize"
      by (simp_all add: valid_def wf_array_def)
    have n: "n < maxSize" using e by (simp add: n_def)
    have lc: "length (content s) = n" using len n by (simp add: content_def n_def)
    have c: "copy_ctor s = Inr d" using copy_ctor_valid [OF v] by (simp add: d_def n_def)
    have m: "move_ctor s = Inr (s, d)"
      using move_ctor_eq_copy_ctor [of s] move_ctor_source [of s] c
      by (cases "move_ctor s") auto
    have r: "Rack_move_ctor \<lparr>m_tiles = s\<rparr> = Inr (\<lparr>m_tiles = s\<rparr>, \<lparr>m_tiles = d\<rparr>)"
      using c by (simp add: Rack_move_ctor_def assign_eq_copy_ctor)
    have vd: "valid d" using lc n e by (simp add: valid_def wf_array_def d_def)
    have cd: "content d = content s" using lc by (simp add: content_def d_def n_def [symmetric])
    have z: "m_data d ! nat (m_end d) = 0"
      using lc n by (simp add: d_def n_def [symmetric] nth_append)
    have ls: "length_fls s = Inr n" and ld: "length_fls d = Inr n"
      using e by (simp_all add: length_fls_Inr_iff n_def d_def)
    have "compare d s = Inr (spec_compare (content d) (content s))"
      using vd v ld ls by (intro compare_content) (simp_all add: valid_def)
    then have "compare d s = Inr 0"
      using cd spec_compare_lexord [of "content s" "content s"] by simp
    then have eq: "op_eq d s = Inr True" by (simp add: op_eq_def)
    have me: "m_end d = m_end s" by (simp add: d_def)
    from m c r vd me cd z eq show ?thesis by blast
  qed
  show ?thesis
    using move_ctor_eq_copy_ctor [of s] Rack_move_ctor_eq_copy_ctor [of r]
      move_ctor_source [of s] Rack_move_ctor_source [of r] V
    by blast
qed

theorem move_ctor_spec_witness:
  "valid example_AB \<and>
   (\<exists>d. move_ctor example_AB = Inr (example_AB, d) \<and> copy_ctor example_AB = Inr d \<and>
        Rack_move_ctor \<lparr>m_tiles = example_AB\<rparr> =
          Inr (\<lparr>m_tiles = example_AB\<rparr>, \<lparr>m_tiles = d\<rparr>) \<and>
        content d = [65, 66] \<and> m_data d ! 2 = 0 \<and> op_eq d example_AB = Inr True)"
proof -
  have m: "m_end example_AB = 2" by (simp add: example_AB_def)
  show ?thesis
    using move_ctor_spec [of example_AB "\<lparr>m_tiles = example_AB\<rparr>"] valid_example_AB
    by (auto simp: content_example_AB m)
qed

section \<open>Rack: containment, unloading and loading\<close>

lemma find_tile_Some:
  "find_tile p ts = Some i \<Longrightarrow> i < length ts \<and> p (ts ! i) \<and> (\<forall>j<i. \<not> p (ts ! j))"
proof (induction ts arbitrary: i)
  case Nil
  then show ?case by simp
next
  case (Cons t ts)
  show ?case
  proof (cases "p t")
    case True
    with Cons.prems show ?thesis by simp
  next
    case False
    with Cons.prems obtain k where k: "find_tile p ts = Some k" "i = Suc k" by auto
    from Cons.IH [OF k(1)] False k(2) show ?thesis
      by (auto simp: nth_Cons split: nat.splits)
  qed
qed

lemma find_tile_None: "find_tile p ts = None \<longleftrightarrow> (\<forall>t \<in> set ts. \<not> p t)"
  by (induction ts) auto

lemma match_tile_Some:
  assumes "match_tile blank ts l = Some i"
  shows "i < length ts \<and>
         ((ts ! i = l \<and> (\<forall>j<i. ts ! j \<noteq> l)) \<or>
          (l \<notin> set ts \<and> ts ! i = blank \<and> (\<forall>j<i. ts ! j \<noteq> blank)))"
proof (cases "find_tile (\<lambda>t. t = l) ts")
  case None
  then have "find_tile (\<lambda>t. t = blank) ts = Some i" using assms by (simp add: match_tile_def)
  from find_tile_Some [OF this] None show ?thesis by (auto simp: find_tile_None)
next
  case (Some k)
  then have "k = i" using assms by (simp add: match_tile_def)
  with find_tile_Some [OF Some] show ?thesis by auto
qed

lemma match_tile_None:
  "match_tile blank ts l = None \<longleftrightarrow> l \<notin> set ts \<and> blank \<notin> set ts"
proof (cases "find_tile (\<lambda>t. t = l) ts")
  case None
  then have m: "match_tile blank ts l = find_tile (\<lambda>t. t = blank) ts"
    by (simp add: match_tile_def)
  from None have "l \<notin> set ts" by (auto simp: find_tile_None)
  then show ?thesis unfolding m by (auto simp: find_tile_None)
next
  case (Some k)
  from find_tile_Some [OF Some] have "l \<in> set ts" by (auto simp: in_set_conv_nth)
  with Some show ?thesis by (simp add: match_tile_def)
qed

lemma match_tile_exact:
  assumes "l \<in> set ts"
  shows "\<exists>i. match_tile blank ts l = Some i \<and> i < length ts \<and> ts ! i = l"
proof -
  from assms have "find_tile (\<lambda>t. t = l) ts \<noteq> None" by (auto simp: find_tile_None)
  then obtain i where i: "find_tile (\<lambda>t. t = l) ts = Some i" by auto
  from find_tile_Some [OF i] i show ?thesis by (simp add: match_tile_def)
qed

lemma valid_content_length: "valid ts \<Longrightarrow> length (content ts) = nat (m_end ts)"
  by (auto simp: valid_def wf_array_def content_def)

lemma discard_tiles_content:
  assumes "valid ts"
  shows "\<exists>r. discard_tiles blank ts ls = Inr r \<and>
             map_option content r = discard_list blank (content ts) ls \<and>
             (\<forall>ts'. r = Some ts' \<longrightarrow> valid ts')"
  using assms
proof (induction ls arbitrary: ts)
  case Nil
  then show ?case by simp
next
  case (Cons l ls)
  from Cons.prems have e: "0 \<le> m_end ts" "m_end ts \<le> int maxSize"
    by (simp_all add: valid_def)
  have len: "length_fls ts = Inr (nat (m_end ts))" using e by (rule length_fls_in_range)
  have c: "take (nat (m_end ts)) (m_data ts) = content ts" by (simp add: content_def)
  show ?case
  proof (cases "match_tile blank (content ts) l")
    case None
    then show ?thesis by (simp add: len c)
  next
    case (Some i)
    from match_tile_Some [OF Some] have i: "i < length (content ts)" by simp
    then have hi: "int i < m_end ts" using valid_content_length [OF Cons.prems] by simp
    have lo: "0 \<le> int i" by simp
    from erase_ok [OF Cons.prems lo hi] obtain ts' where er: "erase ts (int i) = Inr ts'" by simp
    have v': "valid ts'" using Cons.prems lo hi er by (rule erase_valid)
    have c': "content ts' = take i (content ts) @ drop (Suc i) (content ts)"
      using erase_content [OF Cons.prems lo hi er] by simp
    from Cons.IH [OF v'] show ?thesis by (simp add: len c Some er c')
  qed
qed

lemma content_append_char:
  assumes v: "valid ts" and hi: "m_end ts < int maxSize - 1"
  shows "\<exists>ts'. append_char ts l = Inr ts' \<and> valid ts' \<and> m_end ts' = m_end ts + 1 \<and>
               content ts' = content ts @ [l]"
proof -
  from v have w: "wf_array ts" and lo: "0 \<le> m_end ts" by (simp_all add: valid_def)
  define n where "n = nat (m_end ts)"
  have len: "length (m_data ts) = maxSize" using w by (simp add: wf_array_def)
  have n: "n < maxSize - 1" using lo hi by (simp add: n_def)
  define ts' where
    "ts' = \<lparr>m_data = (m_data ts)[n := l, n + 1 := 0], m_end = m_end ts + 1\<rparr>"
  have a: "append_char ts l = Inr ts'"
    using append_char_ok [OF w lo hi] by (simp add: ts'_def n_def)
  have v': "valid ts'" using len lo hi by (simp add: valid_def wf_array_def ts'_def)
  have m: "nat (m_end ts + 1) = Suc n" using lo by (simp add: n_def)
  have "take (Suc n) ((m_data ts)[n := l, n + 1 := 0]) = take n (m_data ts) @ [l]"
    using n len by (simp add: take_Suc_conv_app_nth)
  then have c: "content ts' = content ts @ [l]"
    by (simp add: content_def ts'_def m n_def [symmetric])
  from a v' c show ?thesis by (auto simp: ts'_def)
qed

lemma load_tiles_content:
  assumes "valid ts" "m_end ts + int (length ls) < int maxSize"
  shows "\<exists>ts'. load_tiles ts ls = Inr ts' \<and> valid ts' \<and> content ts' = content ts @ ls"
  using assms
proof (induction ls arbitrary: ts)
  case Nil
  then show ?case by simp
next
  case (Cons l ls)
  from Cons.prems have hi: "m_end ts < int maxSize - 1" by simp
  from content_append_char [OF Cons.prems(1) hi, of l]
  obtain ts1 where a: "append_char ts l = Inr ts1" "valid ts1" "m_end ts1 = m_end ts + 1"
    "content ts1 = content ts @ [l]" by blast
  have "m_end ts1 + int (length ls) < int maxSize" using a(3) Cons.prems(2) by simp
  from Cons.IH [OF a(2) this] a show ?case by auto
qed

lemma mset_remove_nth:
  "i < length ts \<Longrightarrow> mset (take i ts @ drop (Suc i) ts) = mset ts - {#ts ! i#}"
proof -
  assume "i < length ts"
  then have "ts = take i ts @ ts ! i # drop (Suc i) ts" by (simp add: id_take_nth_drop)
  then have "mset ts = mset (take i ts @ drop (Suc i) ts) + {#ts ! i#}"
    by (metis mset.simps(2) mset_append union_mset_add_mset_right add_mset_add_single)
  then show ?thesis by simp
qed

lemma discard_list_length:
  "discard_list blank ts ls = Some ts' \<Longrightarrow> length ts' + length ls = length ts"
proof (induction ls arbitrary: ts)
  case Nil
  then show ?case by simp
next
  case (Cons l ls)
  then obtain i where i: "match_tile blank ts l = Some i"
    and d: "discard_list blank (take i ts @ drop (Suc i) ts) ls = Some ts'"
    by (auto split: option.splits)
  from match_tile_Some [OF i] have "i < length ts" by simp
  with Cons.IH [OF d] show ?case by simp
qed

lemma discard_list_exact:
  "mset ls \<subseteq># mset ts \<Longrightarrow>
     \<exists>ts'. discard_list blank ts ls = Some ts' \<and> mset ts' + mset ls = mset ts"
proof (induction ls arbitrary: ts)
  case Nil
  then show ?case by simp
next
  case (Cons l ls)
  then have "l \<in># mset ts" by (simp add: insert_subset_eq_iff)
  then have "l \<in> set ts" by simp
  from match_tile_exact [OF this, of blank]
  obtain i where i: "match_tile blank ts l = Some i" "i < length ts" "ts ! i = l" by blast
  let ?ts1 = "take i ts @ drop (Suc i) ts"
  have m1: "mset ?ts1 = mset ts - {#l#}" using mset_remove_nth [OF i(2)] i(3) by simp
  have "mset ls \<subseteq># mset ?ts1" using Cons.prems m1 by (simp add: insert_subset_eq_iff)
  from Cons.IH [OF this] obtain ts' where
    t: "discard_list blank ?ts1 ls = Some ts'" "mset ts' + mset ls = mset ?ts1" by blast
  have "mset ts' + mset (l # ls) = mset ts"
    using t(2) m1 \<open>l \<in># mset ts\<close> by simp
  with t(1) i(1) show ?case by simp
qed

lemma discard_list_restore_iff:
  assumes "discard_list blank ts ls = Some ts'"
  shows "mset (ts' @ ls) = mset ts \<longleftrightarrow> mset ls \<subseteq># mset ts"
proof
  assume "mset (ts' @ ls) = mset ts"
  then have "mset ts = mset ts' + mset ls" by simp
  then show "mset ls \<subseteq># mset ts" by simp
next
  assume "mset ls \<subseteq># mset ts"
  from discard_list_exact [OF this, of blank] assms show "mset (ts' @ ls) = mset ts" by auto
qed

lemma letters_facts:
  assumes "length xs < maxSize"
  shows "valid (letters xs)" "content (letters xs) = xs"
    "length_fls (letters xs) = Inr (length xs)" "ctor_sn xs (length xs) = Inr (letters xs)"
proof -
  show "valid (letters xs)" using assms by (simp add: valid_def wf_array_def letters_def)
  show "content (letters xs) = xs" by (simp add: content_def letters_def)
  show "length_fls (letters xs) = Inr (length xs)"
    using assms by (simp add: length_fls_Inr_iff letters_def)
  show "ctor_sn xs (length xs) = Inr (letters xs)"
    using ctor_sn_ok [OF assms, of xs] by (simp add: letters_def)
qed

lemma unload_content:
  assumes v: "valid (m_tiles r)" and l: "length_fls seq = Inr n"
  shows "\<exists>res. unload blank r seq = Inr res \<and>
           map_option (\<lambda>r'. content (m_tiles r')) res =
             discard_list blank (content (m_tiles r)) (content seq) \<and>
           (\<forall>r'. res = Some r' \<longrightarrow> valid (m_tiles r'))"
proof -
  from l have n: "n = nat (m_end seq)" by (simp add: length_fls_Inr_iff)
  have c: "take n (m_data seq) = content seq" by (simp add: content_def n)
  from discard_tiles_content [OF v, of blank "content seq"]
  obtain res where d: "discard_tiles blank (m_tiles r) (content seq) = Inr res"
    "map_option content res = discard_list blank (content (m_tiles r)) (content seq)"
    "\<forall>ts'. res = Some ts' \<longrightarrow> valid ts'" by blast
  show ?thesis
  proof (cases res)
    case None
    with d show ?thesis by (simp add: unload_def l c)
  next
    case (Some ts)
    with d show ?thesis by (simp add: unload_def l c)
  qed
qed

lemma contains_content:
  assumes v: "valid (m_tiles r)" and l: "length_fls seq = Inr n"
  shows "contains blank r seq =
           Inr (discard_list blank (content (m_tiles r)) (content seq) \<noteq> None)"
proof -
  from unload_content [OF v l, of blank]
  obtain res where u: "unload blank r seq = Inr res"
    "map_option (\<lambda>r'. content (m_tiles r')) res =
       discard_list blank (content (m_tiles r)) (content seq)" by blast
  show ?thesis
  proof (cases res)
    case None
    with u show ?thesis by (simp add: contains_def)
  next
    case (Some r')
    with u(2) have "discard_list blank (content (m_tiles r)) (content seq) \<noteq> None"
      by (metis option.map_disc_iff option.discI)
    with u(1) Some show ?thesis by (simp add: contains_def)
  qed
qed

lemma contains_letters:
  assumes "length ts < maxSize" "length ls < maxSize"
  shows "contains blank \<lparr>m_tiles = letters ts\<rparr> (letters ls) =
           Inr (discard_list blank ts ls \<noteq> None)"
  using contains_content [of "\<lparr>m_tiles = letters ts\<rparr>" "letters ls" "length ls" blank]
    letters_facts [OF assms(1)] letters_facts [OF assms(2)]
  by simp

lemma discard_two_of_letter_and_blank:
  "discard_list blank [a, blank] [a, b] \<noteq> None"
  "discard_list blank [blank, a] [a, b] \<noteq> None"
  "discard_list blank [blank, blank] [x, y] \<noteq> None"
  by (auto simp: match_tile_def split: option.splits)

text \<open>
  Claim C8. \<^verbatim>\<open>contains\<close> returns the verdict of the greedy scan over the contents of rack
  and request, and returns no rack. In the scan a requested letter takes the leftmost
  equal tile, and the leftmost blank only when the rack holds no equal tile; it fails
  only when the rack holds neither. Hence a rack holding a letter \<open>a\<close> and a blank, in
  either order, contains the requests \<open>a, a\<close> and \<open>a, b\<close>, and a rack of two blanks
  contains every request of two letters.
\<close>

theorem contains_spec:
  "(valid (m_tiles r) \<longrightarrow> length_fls seq = Inr n \<longrightarrow>
      contains blank r seq =
        Inr (discard_list blank (content (m_tiles r)) (content seq) \<noteq> None)) \<and>
   (match_tile blank ts l = Some i \<longrightarrow>
      i < length ts \<and>
      ((ts ! i = l \<and> (\<forall>j<i. ts ! j \<noteq> l)) \<or>
       (l \<notin> set ts \<and> ts ! i = blank \<and> (\<forall>j<i. ts ! j \<noteq> blank)))) \<and>
   (match_tile blank ts l = None \<longleftrightarrow> l \<notin> set ts \<and> blank \<notin> set ts) \<and>
   contains blank \<lparr>m_tiles = letters [a, blank]\<rparr> (letters [a, a]) = Inr True \<and>
   contains blank \<lparr>m_tiles = letters [a, blank]\<rparr> (letters [a, b]) = Inr True \<and>
   contains blank \<lparr>m_tiles = letters [blank, a]\<rparr> (letters [a, a]) = Inr True \<and>
   contains blank \<lparr>m_tiles = letters [blank, a]\<rparr> (letters [a, b]) = Inr True \<and>
   contains blank \<lparr>m_tiles = letters [blank, blank]\<rparr> (letters [x, y]) = Inr True"
proof -
  have two: "length [p, q] < maxSize" for p q :: cchar by (simp add: maxSize_def)
  have 1: "contains blank \<lparr>m_tiles = letters [a, blank]\<rparr> (letters [a, c]) = Inr True" for c
    using discard_two_of_letter_and_blank(1) [of blank a c]
    by (simp only: contains_letters [OF two two] simp_thms)
  have 2: "contains blank \<lparr>m_tiles = letters [blank, a]\<rparr> (letters [a, c]) = Inr True" for c
    using discard_two_of_letter_and_blank(2) [of blank a c]
    by (simp only: contains_letters [OF two two] simp_thms)
  have 3: "contains blank \<lparr>m_tiles = letters [blank, blank]\<rparr> (letters [x, y]) = Inr True"
    using discard_two_of_letter_and_blank(3) [of blank x y]
    by (simp only: contains_letters [OF two two] simp_thms)
  show ?thesis
    using contains_content [of r seq n blank] match_tile_Some [of blank ts l i]
      match_tile_None [of blank ts l] 1 2 3
    by blast
qed

theorem contains_spec_witness:
  "valid (m_tiles \<lparr>m_tiles = letters [5, 1]\<rparr>) \<and> length_fls (letters [5, 6]) = Inr 2 \<and>
   contains 1 \<lparr>m_tiles = letters [5, 1]\<rparr> (letters [5, 6]) = Inr True \<and>
   match_tile 1 [5, 1] 6 = Some 1 \<and> (6::cchar) \<notin> set [5, 1] \<and> [5, 1 :: cchar] ! 1 = 1 \<and>
   contains 1 \<lparr>m_tiles = letters [5, 1]\<rparr> (letters [5, 5]) = Inr True \<and>
   contains 1 \<lparr>m_tiles = letters [1, 1]\<rparr> (letters [7, 8]) = Inr True"
proof -
  have v: "valid (m_tiles \<lparr>m_tiles = letters [5, 1]\<rparr>)"
    using letters_facts(1) [of "[5, 1]"] by (simp add: maxSize_def)
  have l: "length_fls (letters [5, 6]) = Inr 2"
    using letters_facts(3) [of "[5, 6]"] by (simp add: maxSize_def)
  have m: "match_tile 1 [5, 1] 6 = Some 1" by (simp add: match_tile_def)
  have a: "(6::cchar) \<notin> set [5, 1]" "[5, 1 :: cchar] ! 1 = 1" by simp_all
  show ?thesis
    using contains_spec [of "\<lparr>m_tiles = letters [5, 1]\<rparr>" "letters [5, 6]" 2 1 "[5, 1]" 6 1 5 6 7 8]
      v l m a
    by blast
qed

subsection \<open>Unloading followed by loading\<close>

text \<open>
  Whether \<^verbatim>\<open>load(seq)\<close> after a successful \<^verbatim>\<open>unload(seq)\<close> gives back the tiles held
  before (claim C9) depends on the matching rule of \<^verbatim>\<open>unload\<close>, whose body is not among
  the sources. The header comment of \<^verbatim>\<open>unload\<close>, "returns true if all tiles in used were
  found in this rack and unloaded", reads as exact matching; the scan modelled above lets
  a blank stand in for a letter. The facts of this subsection are facts about the modelled
  scan and decide nothing about the missing code: there the tiles come back exactly when
  the letters of \<open>seq\<close> are, as a multiset, among the tiles of the rack, which is always
  so on a rack without blanks.
\<close>

lemma unload_load_scan:
  assumes v: "valid (m_tiles r)" and u: "unload blank r seq = Inr (Some r')"
  shows "\<exists>r''. load r' seq = Inr r'' \<and> valid (m_tiles r'') \<and>
           mset (content (m_tiles r'')) = mset (content (m_tiles r')) + mset (content seq) \<and>
           (mset (content (m_tiles r'')) = mset (content (m_tiles r)) \<longleftrightarrow>
              mset (content seq) \<subseteq># mset (content (m_tiles r)))"
proof -
  from u obtain n where l: "length_fls seq = Inr n"
    by (cases "length_fls seq") (auto simp: unload_def)
  then have n: "n = nat (m_end seq)" by (simp add: length_fls_Inr_iff)
  have c: "take n (m_data seq) = content seq" by (simp add: content_def n)
  from unload_content [OF v l, of blank] u
  have d: "discard_list blank (content (m_tiles r)) (content seq) = Some (content (m_tiles r'))"
    and v': "valid (m_tiles r')" by auto
  have len: "length (content (m_tiles r')) + length (content seq) = length (content (m_tiles r))"
    using d by (rule discard_list_length)
  have "length (content (m_tiles r)) < maxSize"
    using v valid_content_length [OF v] by (simp add: valid_def nat_less_iff)
  with len valid_content_length [OF v']
  have room: "m_end (m_tiles r') + int (length (content seq)) < int maxSize"
    using v' by (simp add: valid_def)
  from load_tiles_content [OF v' room]
  obtain ts where t: "load_tiles (m_tiles r') (content seq) = Inr ts" "valid ts"
    "content ts = content (m_tiles r') @ content seq" by blast
  have ld: "load r' seq = Inr (r'\<lparr>m_tiles := ts\<rparr>)" using t(1) by (simp add: load_def l c)
  have iff: "mset (content (m_tiles r') @ content seq) = mset (content (m_tiles r)) \<longleftrightarrow>
               mset (content seq) \<subseteq># mset (content (m_tiles r))"
    using d by (rule discard_list_restore_iff)
  show ?thesis
    using ld t(2) t(3) iff by (intro exI [of _ "r'\<lparr>m_tiles := ts\<rparr>"]) simp
qed

lemma unload_example:
  "unload 1 \<lparr>m_tiles = letters [5, 1]\<rparr> (letters [5, 6]) = Inr (Some \<lparr>m_tiles = letters []\<rparr>)"
  by code_simp

lemma load_example:
  "load \<lparr>m_tiles = letters []\<rparr> (letters [5, 6]) = Inr \<lparr>m_tiles = letters [5, 6]\<rparr>"
  by code_simp

text \<open>
  In the modelled scan the rack \<open>A, blank\<close> releases both tiles for the request \<open>A, B\<close>,
  and loading \<open>A, B\<close> leaves \<open>A, B\<close>.
\<close>

lemma unload_load_blank_example:
  "unload 1 \<lparr>m_tiles = letters [5, 1]\<rparr> (letters [5, 6]) = Inr (Some \<lparr>m_tiles = letters []\<rparr>) \<and>
   load \<lparr>m_tiles = letters []\<rparr> (letters [5, 6]) = Inr \<lparr>m_tiles = letters [5, 6]\<rparr> \<and>
   mset (content (m_tiles \<lparr>m_tiles = letters [5, 6]\<rparr>)) \<noteq>
     mset (content (m_tiles \<lparr>m_tiles = letters [5, 1]\<rparr>))"
proof -
  have "content (letters [5, 6]) = [5, 6]" "content (letters [5, 1]) = [5, 1]"
    by (simp_all add: content_def letters_def)
  then show ?thesis using unload_example load_example by simp
qed

lemma discard_list_no_blank:
  assumes "discard_list blank ts ls = Some ts'" "blank \<notin> set ts"
  shows "mset ls \<subseteq># mset ts"
  using assms
proof (induction ls arbitrary: ts)
  case Nil
  then show ?case by simp
next
  case (Cons l ls)
  then obtain i where i: "match_tile blank ts l = Some i"
    and d: "discard_list blank (take i ts @ drop (Suc i) ts) ls = Some ts'"
    by (auto split: option.splits)
  let ?ts1 = "take i ts @ drop (Suc i) ts"
  from match_tile_Some [OF i] Cons.prems(2) have lt: "i < length ts" and eq: "ts ! i = l"
    by (auto simp: in_set_conv_nth)
  have m1: "mset ?ts1 = mset ts - {#l#}" using mset_remove_nth [OF lt] eq by simp
  have "set ?ts1 \<subseteq> set ts" by (auto dest: in_set_takeD in_set_dropD)
  with Cons.prems(2) have "blank \<notin> set ?ts1" by auto
  from Cons.IH [OF d this] have "mset ls \<subseteq># mset ?ts1" .
  then have "mset ls \<subseteq># mset ts - {#l#}" unfolding m1 .
  moreover have "l \<in># mset ts" using lt eq by (auto simp: in_set_conv_nth)
  ultimately show ?case by (simp add: insert_subset_eq_iff)
qed

lemma unload_load_no_blank:
  assumes v: "valid (m_tiles r)" and u: "unload blank r seq = Inr (Some r')"
    and b: "blank \<notin> set (content (m_tiles r))"
  shows "\<exists>r''. load r' seq = Inr r'' \<and>
           mset (content (m_tiles r'')) = mset (content (m_tiles r))"
proof -
  from u obtain n where l: "length_fls seq = Inr n"
    by (cases "length_fls seq") (auto simp: unload_def)
  from unload_content [OF v l, of blank] u
  have "discard_list blank (content (m_tiles r)) (content seq) = Some (content (m_tiles r'))"
    by auto
  from discard_list_no_blank [OF this b] unload_load_scan [OF v u] show ?thesis by blast
qed

section \<open>The corruption check and the terminator\<close>

lemma end_const_Inl_iff:
  "end_const s = Inl e \<longleftrightarrow> e = Abort \<and> (m_end s < 0 \<or> m_end s > int maxSize)"
  by (auto simp: end_const_def)

lemma end_const_in_range:
  "0 \<le> m_end s \<Longrightarrow> m_end s \<le> int maxSize \<Longrightarrow> end_const s = Inr (m_end s)"
  by (simp add: end_const_def)

lemma checks_agree: "isl (length_fls s) = isl (end_const s)"
proof (cases "0 \<le> m_end s \<and> m_end s \<le> int maxSize")
  case True
  then show ?thesis by (simp add: length_fls_in_range end_const_in_range)
next
  case False
  then have "length_fls s = Inl Abort" "end_const s = Inl Abort"
    by (auto simp: length_fls_Inl_iff end_const_Inl_iff)
  then show ?thesis by simp
qed

lemma terminated_ctor_default: "terminated ctor_default"
  by (simp add: terminated_def valid_def wf_array_def ctor_default_def memset_zero_def maxSize_def)

lemma terminated_ctor_sn:
  assumes "ctor_sn s n = Inr x" "n \<le> length s"
  shows "terminated x"
proof -
  from assms(1) have n: "n < maxSize" by (auto simp: ctor_sn_def split: if_splits)
  from ctor_sn_ok [OF n assms(2)] assms(1)
  have x: "x = \<lparr>m_data = take n s @ replicate (maxSize - n) 0, m_end = int n\<rparr>" by simp
  show ?thesis using n assms(2) by (simp add: x terminated_def valid_def wf_array_def nth_append)
qed

lemma terminated_copy_ctor:
  assumes "valid s" "copy_ctor s = Inr d"
  shows "terminated d"
proof -
  from assms(1) have len: "length (m_data s) = maxSize"
    and e: "0 \<le> m_end s" "m_end s < int maxSize"
    by (simp_all add: valid_def wf_array_def)
  have lc: "length (content s) = nat (m_end s)" using len e by (simp add: content_def)
  from copy_ctor_valid [OF assms(1)] assms(2)
  have d: "d = \<lparr>m_data = content s @ replicate (maxSize - nat (m_end s)) 0, m_end = m_end s\<rparr>"
    by simp
  show ?thesis using lc e by (simp add: d terminated_def valid_def wf_array_def nth_append)
qed

lemma terminated_assign: "valid s \<Longrightarrow> assign this s = Inr d \<Longrightarrow> terminated d"
  by (simp add: assign_eq_copy_ctor terminated_copy_ctor)

lemma terminated_move_ctor:
  assumes "valid s" "move_ctor s = Inr (s', d)"
  shows "terminated d"
proof -
  from move_ctor_eq_copy_ctor [of s] assms(2) have "copy_ctor s = Inr d" by simp
  with assms(1) show ?thesis by (rule terminated_copy_ctor)
qed

lemma terminated_append_char:
  assumes "wf_array x" "append_char x c = Inr x'"
  shows "terminated x'"
proof -
  from assms(2) obtain n where sz: "size_fls x = Inr n" and n: "n < maxSize - 1"
    by (cases "size_fls x") (auto simp: append_char_def split: if_splits)
  from sz have e: "0 \<le> m_end x" "n = nat (m_end x)"
    by (simp_all add: size_fls_def length_fls_Inr_iff)
  from e n have hi: "m_end x < int maxSize - 1" by linarith
  have len: "length (m_data x) = maxSize" using assms(1) by (simp add: wf_array_def)
  from append_char_ok [OF assms(1) e(1) hi] assms(2)
  have x': "x' = \<lparr>m_data = (m_data x)[n := c, n + 1 := 0], m_end = m_end x + 1\<rparr>"
    by (simp add: e(2))
  have m: "nat (m_end x + 1) = n + 1" using e by simp
  show ?thesis
    using len n e hi by (simp add: x' terminated_def valid_def wf_array_def m)
qed

lemma terminated_push_back:
  assumes "wf_array x" "push_back x c = Inr x'"
  shows "terminated x'"
proof -
  from assms(2) have "append_char x c = Inr x'"
    by (auto simp: push_back_def Let_def split: if_splits)
  with assms(1) show ?thesis by (rule terminated_append_char)
qed

lemma terminated_erase:
  assumes t: "terminated x" and lo: "0 \<le> i" and hi: "i < m_end x" and er: "erase x i = Inr x'"
  shows "terminated x'"
proof -
  from t have v: "valid x" and z: "m_data x ! nat (m_end x) = 0" by (simp_all add: terminated_def)
  from v have len: "length (m_data x) = maxSize" and e: "0 \<le> m_end x" "m_end x < int maxSize"
    by (simp_all add: valid_def wf_array_def)
  have j: "nat i < nat (m_end x)" and n: "nat (m_end x) < length (m_data x)"
    using lo hi e len by simp_all
  have cnt: "nat (m_end x - i) = nat (m_end x) - nat i" using lo hi by simp
  have k: "nat i \<le> nat (m_end x) - 1" "nat (m_end x) - 1 < nat (m_end x)" using j by arith+
  from er have x': "x' = \<lparr>m_data = take (nat i) (m_data x) @
                          take (nat (m_end x) - nat i) (drop (nat i + 1) (m_data x)) @
                          drop (nat (m_end x)) (m_data x),
                m_end = m_end x - 1\<rparr>"
    unfolding erase_ok [OF v lo hi] cnt by simp
  have m: "nat (m_end x - 1) = nat (m_end x) - 1" using lo hi by simp
  have "m_data x' ! nat (m_end x') = m_data x ! (nat (m_end x) - 1 + 1)"
    using nth_erase_cells [OF j n k] by (simp add: x' m)
  also have "\<dots> = 0" using z j by simp
  finally show ?thesis using erase_valid [OF v lo hi er] by (simp add: terminated_def)
qed

text \<open>
  \<^verbatim>\<open>pop_back\<close> and \<^verbatim>\<open>clear\<close> keep the object valid and write no cell: whatever stood in
  the cell that the cursor reaches stays there.
\<close>

lemma pop_back_cells:
  assumes "pop_back x = Inr x'"
  shows "m_data x' = m_data x \<and> m_end x' = m_end x - 1"
  using assms by (auto simp: pop_back_def split: sum.splits if_splits)

lemma valid_pop_back:
  assumes "valid x" "pop_back x = Inr x'"
  shows "valid x'"
proof -
  from assms(2) obtain n where "size_fls x = Inr n" "0 < n"
    by (cases "size_fls x") (auto simp: pop_back_def split: if_splits)
  then have "0 < m_end x" by (auto simp: size_fls_def length_fls_Inr_iff)
  with assms(1) pop_back_cells [OF assms(2)] show ?thesis
    by (simp add: valid_def wf_array_def)
qed

lemma valid_clear: "valid x \<Longrightarrow> valid (clear x)"
  by (simp add: valid_def wf_array_def clear_def maxSize_def)

lemma pop_back_not_terminated:
  assumes "pop_back x = Inr x'" "m_data x ! nat (m_end x - 1) \<noteq> 0"
  shows "\<not> terminated x'"
  using pop_back_cells [OF assms(1)] assms(2) by (simp add: terminated_def)

lemma clear_not_terminated: "m_data x ! 0 \<noteq> 0 \<Longrightarrow> \<not> terminated (clear x)"
  by (simp add: terminated_def clear_def)

lemma ctor_example_AB: "ctor_sn [65, 66] 2 = Inr example_AB"
  using ctor_sn_ok [of 2 "[65, 66]"] by (simp add: maxSize_def example_AB_def)

text \<open>
  Claim C2. The constructors, the assignment, both appends and \<^verbatim>\<open>erase\<close> leave the
  terminator under the cursor (the lemmas above); \<^verbatim>\<open>pop_back\<close> and \<^verbatim>\<open>clear\<close> only move
  the cursor. On the object built from \<open>"AB"\<close>, \<^verbatim>\<open>pop_back\<close> leaves the length 1 with
  \<open>'B'\<close> in the cell at index 1, and \<^verbatim>\<open>clear\<close> leaves the length 0 with \<open>'A'\<close> in the
  cell at index 0: the cell at index \<open>length()\<close> does not hold the terminator.
\<close>

theorem pop_back_clear_terminator:
  "ctor_sn [65, 66] 2 = Inr example_AB \<and> terminated example_AB \<and>
   pop_back example_AB = Inr (example_AB\<lparr>m_end := 1\<rparr>) \<and>
   length_fls (example_AB\<lparr>m_end := 1\<rparr>) = Inr 1 \<and>
   m_data (example_AB\<lparr>m_end := 1\<rparr>) ! 1 = 66 \<and>
   \<not> terminated (example_AB\<lparr>m_end := 1\<rparr>) \<and>
   clear example_AB = example_AB\<lparr>m_end := 0\<rparr> \<and>
   length_fls (clear example_AB) = Inr 0 \<and>
   m_data (clear example_AB) ! 0 = 65 \<and>
   \<not> terminated (clear example_AB)"
proof -
  have t: "terminated example_AB"
    using terminated_ctor_sn [OF ctor_example_AB] by simp
  have p: "pop_back example_AB = Inr (example_AB\<lparr>m_end := 1\<rparr>)"
    using pop_back_ok [of example_AB] by (simp add: example_AB_def maxSize_def)
  have l1: "length_fls (example_AB\<lparr>m_end := 1\<rparr>) = Inr 1"
    by (simp add: length_fls_Inr_iff maxSize_def)
  have c1: "m_data (example_AB\<lparr>m_end := 1\<rparr>) ! 1 = 66" by (simp add: example_AB_def)
  have l0: "length_fls (clear example_AB) = Inr 0"
    by (simp add: length_fls_Inr_iff clear_def)
  have c0: "m_data (clear example_AB) ! 0 = 65" by (simp add: clear_def example_AB_def)
  have n1: "\<not> terminated (example_AB\<lparr>m_end := 1\<rparr>)" using c1 by (simp add: terminated_def)
  have n0: "\<not> terminated (clear example_AB)" using c0 by (simp add: terminated_def clear_def)
  from ctor_example_AB t p l1 c1 n1 l0 c0 n0 show ?thesis by (simp add: clear_def)
qed

text \<open>
  Claim C3. \<open>length()\<close> and \<^verbatim>\<open>end() const\<close> abort exactly when the cursor is outside
  \<open>[0, maxSize]\<close> (\<open>length_fls_Inl_iff\<close>, \<open>end_const_Inl_iff\<close>) and never inside it
  (\<open>length_fls_in_range\<close>, \<open>end_const_in_range\<close>). The non-const \<^verbatim>\<open>end()\<close> has no
  check: after \<^verbatim>\<open>erase(begin())\<close> on the empty object the cursor is one cell before
  the array, \<open>length()\<close> and \<^verbatim>\<open>end() const\<close> abort, and the non-const \<^verbatim>\<open>end()\<close> returns
  that cursor.
\<close>

theorem end_nonconst_unchecked:
  "erase ctor_default (begin_fls ctor_default) = Inr (ctor_default\<lparr>m_end := - 1\<rparr>) \<and>
   length_fls (ctor_default\<lparr>m_end := - 1\<rparr>) = Inl Abort \<and>
   end_const (ctor_default\<lparr>m_end := - 1\<rparr>) = Inl Abort \<and>
   end_fls (ctor_default\<lparr>m_end := - 1\<rparr>) = Inr (- 1)"
  by (simp add: erase_def memmove_left_def begin_fls_def ctor_default_def length_fls_Inl_iff
      end_const_def end_fls_def)

end
